theory Spec2Isabelle
  imports Complex_Main
begin

section \<open>Fractal sampling: the data model\<close>

text \<open>
  The development follows \<^verbatim>\<open>src/fractal.hpp\<close> and \<^verbatim>\<open>src/newton.cpp\<close>.

  \<^item> A C++ \<^verbatim>\<open>int\<close> is a HOL \<open>int\<close> between \<open>INT_MIN\<close> and \<open>INT_MAX\<close>. Loop counters
    stay below their bounds and the boundaries \<open>span*itr\<close> stay between \<open>0\<close> and
    \<open>yresolution\<close>, so the only integer operation that decides a result and can be undefined
    is the division of \<open>iteration_limits\<close>; it is modelled by \<open>int_div\<close>, which has no
    result where C++ gives the division no meaning. Products that are only printed
    (\<open>xresolution*yresolution\<close>, \<open>itr*xresolution\<close>) are not evaluated.
  \<^item> A \<^verbatim>\<open>double\<close> is a \<open>real\<close> and a \<^verbatim>\<open>std::complex<double>\<close> is a \<open>complex\<close>.
    In \<open>polynomial_and_deriv\<close> and everything built on it arithmetic is exact: rounding,
    overflow and NaN are left out, and the literal \<^verbatim>\<open>1e-6\<close> is the real number
    \<open>1 / 1000000\<close>. The values that the code computes in binary64 are those of
    \<open>polynomial_and_deriv_rnd round64\<close>, in which every real operation is rounded. The one
    non-finite value the code itself constructs, the point \<open>(infinity, infinity)\<close>, has a
    constructor of its own.
  \<^item> A pointer is the map from offsets to the cells it reaches: \<^verbatim>\<open>*(coeffs+itr)\<close> is
    \<open>coeffs itr\<close> and \<^verbatim>\<open>*(*(re+itr)+jtr)\<close> is the cell \<open>re itr jtr\<close>. Cells at
    different offsets, and cells of different buffers, are different cells.
  \<^item> Of the text written to \<^verbatim>\<open>std::cerr\<close> the model keeps the starting points that
    \<open>newton_root\<close> reports; progress messages on \<^verbatim>\<open>std::cout\<close> and the wall-clock
    measurement are left out.
\<close>

definition INT_MAX :: int where
  "INT_MAX = 2147483647"

definition INT_MIN :: int where
  "INT_MIN = - 2147483648"

text \<open>
  The operator \<^verbatim>\<open>/\<close> on \<^verbatim>\<open>int\<close>: the quotient truncated towards zero. A zero divisor
  and the quotient \<open>INT_MIN / -1\<close> are undefined behaviour, here \<open>None\<close>.
\<close>

definition int_div :: "int \<Rightarrow> int \<Rightarrow> int option" where
  "int_div a b =
     (if b = 0 \<or> (a = INT_MIN \<and> b = - 1) then None
      else Some (sgn a * sgn b * (\<bar>a\<bar> div \<bar>b\<bar>)))"

text \<open>
  A \<^verbatim>\<open>double\<close> stored in a result buffer, and the \<^verbatim>\<open>std::complex<double>\<close> that
  \<open>newton_root\<close> returns: \<open>Infinite\<close> is
  \<^verbatim>\<open>std::complex<double>(infinity, infinity)\<close>, whose parts are both \<open>Infinity\<close>.
\<close>

datatype double = Value real | Infinity

datatype cdouble = Finite complex | Infinite

fun real_part :: "cdouble \<Rightarrow> double" where
  "real_part (Finite z) = Value (Re z)"
| "real_part Infinite = Infinity"

fun imag_part :: "cdouble \<Rightarrow> double" where
  "imag_part (Finite z) = Value (Im z)"
| "imag_part Infinite = Infinity"


section \<open>RangePartitioner: \<open>iteration_limits\<close>\<close>

text \<open>
  \<^verbatim>\<open>for (int itr=0;itr<num_threads;++itr) { *out++=span*itr; }\<close>
  with the values written through \<open>out\<close> so far as the last argument (\<open>spn\<close> is the
  source's \<open>span\<close>).
\<close>

function limits_loop :: "int \<Rightarrow> int \<Rightarrow> int \<Rightarrow> int list \<Rightarrow> int list" where
  "limits_loop spn num_threads itr out =
     (if itr < num_threads then limits_loop spn num_threads (itr + 1) (out @ [spn * itr])
      else out)"
  by pat_completeness auto
termination
  by (relation "measure (\<lambda>(spn, num_threads, itr, out). nat (num_threads - itr))") auto

declare limits_loop.simps [simp del]

text \<open>
  \<open>iteration_limits num_threads yresolution\<close> is the sequence written to the output
  iterator, the \<^verbatim>\<open>std::vector<int>\<close> that \<open>sample_newton\<close> receives.
\<close>

definition iteration_limits :: "int \<Rightarrow> int \<Rightarrow> int list option" where
  "iteration_limits num_threads yresolution =
     (case int_div yresolution num_threads of
        None \<Rightarrow> None
      | Some spn \<Rightarrow> Some (limits_loop spn num_threads 0 [] @ [yresolution]))"


section \<open>PointIterator: Newton's method\<close>

text \<open>
  The loop of \<open>polynomial_and_deriv\<close>, from \<open>itr\<close> down to \<open>0\<close>: first
  \<^verbatim>\<open>p_prime=x*p_prime+p\<close>, then \<^verbatim>\<open>p=x*p+*(coeffs+itr)\<close>, with the operations
  taken exactly. The same loop with rounded operations is \<open>horner_loop_rnd\<close> below.
\<close>

function horner_loop ::
  "complex \<Rightarrow> (int \<Rightarrow> real) \<Rightarrow> int \<Rightarrow> complex \<Rightarrow> complex \<Rightarrow> complex \<times> complex" where
  "horner_loop x coeffs itr p p_prime =
     (if 0 \<le> itr then
        (let p_prime' = x * p_prime + p;
             p' = x * p + complex_of_real (coeffs itr)
         in horner_loop x coeffs (itr - 1) p' p_prime')
      else (p, p_prime))"
  by pat_completeness auto
termination
  by (relation "measure (\<lambda>(x, coeffs, itr, p, p_prime). nat (itr + 1))") auto

declare horner_loop.simps [simp del]

definition polynomial_and_deriv ::
  "complex \<Rightarrow> (int \<Rightarrow> real) \<Rightarrow> int \<Rightarrow> complex \<times> complex" where
  "polynomial_and_deriv x coeffs degree =
     horner_loop x coeffs (degree - 1) (complex_of_real (coeffs degree)) 0"











text \<open>
  The loop of \<open>newton_root\<close>. The result is the returned value, the value stored through
  \<open>itr_taken\<close>, and the starting points reported on \<^verbatim>\<open>std::cerr\<close>.
\<close>

function newton_loop ::
  "(int \<Rightarrow> real) \<Rightarrow> complex \<Rightarrow> int \<Rightarrow> int \<Rightarrow> real \<Rightarrow> int \<Rightarrow> complex
   \<Rightarrow> cdouble \<times> int \<times> complex list" where
  "newton_loop coeffs init degree max_itr tol itr x =
     (if itr < max_itr then
        (let (f_x, g_x) = polynomial_and_deriv x coeffs degree
         in if cmod f_x < tol then (Finite x, itr, [])
            else if g_x = 0 then (Infinite, INT_MAX, [init])
            else newton_loop coeffs init degree max_itr tol (itr + 1) (x - f_x / g_x))
      else (Infinite, INT_MAX, []))"
  by pat_completeness auto
termination
  by (relation "measure (\<lambda>(coeffs, init, degree, max_itr, tol, itr, x). nat (max_itr - itr))")
    auto

declare newton_loop.simps [simp del]

definition newton_root ::
  "(int \<Rightarrow> real) \<Rightarrow> complex \<Rightarrow> int \<Rightarrow> int \<Rightarrow> real \<Rightarrow> cdouble \<times> int \<times> complex list" where
  "newton_root coeffs x degree max_itr tol = newton_loop coeffs x degree max_itr tol 0 x"


section \<open>RangeWorker: \<open>compute_newton_range\<close>\<close>

text \<open>The three caller-owned output buffers of the Newton sampling.\<close>

record buffers =
  re :: "int \<Rightarrow> int \<Rightarrow> double"
  im :: "int \<Rightarrow> int \<Rightarrow> double"
  iterations :: "int \<Rightarrow> int \<Rightarrow> int"

text \<open>
  The body of the inner loop at row \<open>itr\<close> and column \<open>jtr\<close>: \<open>newton_root\<close> stores the
  iteration count through the pointer \<^verbatim>\<open>*(iterations+itr)+jtr\<close>, then the two parts of
  the returned value are stored.
\<close>

definition newton_pixel ::
  "(int \<Rightarrow> real) \<Rightarrow> int \<Rightarrow> int \<Rightarrow> real \<Rightarrow> real \<Rightarrow> int \<Rightarrow> real \<Rightarrow> int \<Rightarrow> buffers \<Rightarrow> buffers" where
  "newton_pixel coeffs max_itr degree startx deltax itr imag jtr b =
     (let real' = startx + deltax * real_of_int jtr;
          (root, itr_taken, cerr) =
             newton_root coeffs (Complex real' imag) degree max_itr (1 / 1000000);
          b1 = b\<lparr>iterations := (iterations b)(itr := (iterations b itr)(jtr := itr_taken))\<rparr>;
          b2 = b1\<lparr>re := (re b1)(itr := (re b1 itr)(jtr := real_part root))\<rparr>
      in b2\<lparr>im := (im b2)(itr := (im b2 itr)(jtr := imag_part root))\<rparr>)"

function newton_cols ::
  "(int \<Rightarrow> real) \<Rightarrow> int \<Rightarrow> int \<Rightarrow> int \<Rightarrow> real \<Rightarrow> real \<Rightarrow> int \<Rightarrow> real \<Rightarrow> int \<Rightarrow> buffers
   \<Rightarrow> buffers" where
  "newton_cols coeffs max_itr degree xresolution startx deltax itr imag jtr b =
     (if jtr < xresolution then
        newton_cols coeffs max_itr degree xresolution startx deltax itr imag (jtr + 1)
          (newton_pixel coeffs max_itr degree startx deltax itr imag jtr b)
      else b)"
  by pat_completeness auto
termination
  by (relation "measure (\<lambda>(coeffs, max_itr, degree, xresolution, startx, deltax, itr, imag,
        jtr, b). nat (xresolution - jtr))") auto

declare newton_cols.simps [simp del]

function newton_rows ::
  "(int \<Rightarrow> real) \<Rightarrow> int \<Rightarrow> int \<Rightarrow> int \<Rightarrow> int \<Rightarrow> real \<Rightarrow> real \<Rightarrow> real \<Rightarrow> real \<Rightarrow> int \<Rightarrow> buffers
   \<Rightarrow> buffers" where
  "newton_rows coeffs max_itr degree xresolution end_itr startx starty deltax deltay itr b =
     (if itr < end_itr then
        (let imag = starty + deltay * real_of_int itr
         in newton_rows coeffs max_itr degree xresolution end_itr startx starty deltax deltay
              (itr + 1)
              (newton_cols coeffs max_itr degree xresolution startx deltax itr imag 0 b))
      else b)"
  by pat_completeness auto
termination
  by (relation "measure (\<lambda>(coeffs, max_itr, degree, xresolution, end_itr, startx, starty,
        deltax, deltay, itr, b). nat (end_itr - itr))") auto

declare newton_rows.simps [simp del]

text \<open>
  \<open>total'\<close> (the source's \<open>total\<close>) and \<open>verbose\<close> only decide what is printed; they are kept so that the
  parameters are those of the source.
\<close>

definition compute_newton_range ::
  "buffers \<Rightarrow> (int \<Rightarrow> real) \<Rightarrow> int \<Rightarrow> int \<Rightarrow> int \<Rightarrow> int \<Rightarrow> int \<Rightarrow> real \<Rightarrow> real \<Rightarrow> real \<Rightarrow> real
   \<Rightarrow> int \<Rightarrow> bool \<Rightarrow> buffers" where
  "compute_newton_range b coeffs max_itr degree xresolution start_itr end_itr startx starty
     deltax deltay total' verbose =
     newton_rows coeffs max_itr degree xresolution end_itr startx starty deltax deltay
       start_itr b"


section \<open>SampleCoordinator: \<open>sample_newton\<close>\<close>

text \<open>
  The loop that fills the vector \<open>threads\<close>, one \<^verbatim>\<open>std::thread\<close> for each \<open>itr\<close> below
  \<^verbatim>\<open>increments.size()-1\<close>. All threads run \<open>compute_newton_range\<close> on the same buffers
  and differ only in \<open>start_itr\<close> and \<open>end_itr\<close>, so a thread is recorded as the pair
  \<open>(increments[itr], increments[itr+1])\<close>.
\<close>

function spawn_loop :: "int list \<Rightarrow> nat \<Rightarrow> (int \<times> int) list \<Rightarrow> (int \<times> int) list" where
  "spawn_loop increments itr threads =
     (if itr < length increments - 1 then
        spawn_loop increments (itr + 1) (threads @ [(increments ! itr, increments ! (itr + 1))])
      else threads)"
  by pat_completeness auto
termination
  by (relation "measure (\<lambda>(increments, itr, threads). length increments - 1 - itr)") auto

declare spawn_loop.simps [simp del]

text \<open>
  The buffers once every thread has been joined, when the threads run one after the other
  in the order of their creation. Other orders of execution are the schedules below.
\<close>

fun join_threads ::
  "(int \<Rightarrow> real) \<Rightarrow> int \<Rightarrow> int \<Rightarrow> int \<Rightarrow> real \<Rightarrow> real \<Rightarrow> real \<Rightarrow> real \<Rightarrow> int \<Rightarrow> bool
   \<Rightarrow> (int \<times> int) list \<Rightarrow> buffers \<Rightarrow> buffers" where
  "join_threads coeffs max_itr degree xresolution startx starty deltax deltay total' verbose
     [] b = b"
| "join_threads coeffs max_itr degree xresolution startx starty deltax deltay total' verbose
     ((start_itr, end_itr) # threads) b =
     join_threads coeffs max_itr degree xresolution startx starty deltax deltay total' verbose
       threads
       (compute_newton_range b coeffs max_itr degree xresolution start_itr end_itr startx starty
          deltax deltay total' verbose)"

text \<open>
  \<open>sample_newton\<close> returns the buffers and the value stored through \<open>limit\<close>. It has no
  result where the division of \<open>iteration_limits\<close> is undefined.
\<close>

definition sample_newton ::
  "buffers \<Rightarrow> (int \<Rightarrow> real) \<Rightarrow> int \<Rightarrow> int \<Rightarrow> int \<Rightarrow> int \<Rightarrow> int \<Rightarrow> real \<Rightarrow> real \<Rightarrow> real \<Rightarrow> real
   \<Rightarrow> bool \<Rightarrow> (buffers \<times> int) option" where
  "sample_newton b coeffs max_itr num_threads degree xresolution yresolution startx endx starty
     endy verbose =
     (let deltax = (endx - startx) / real_of_int xresolution;
          deltay = (endy - starty) / real_of_int yresolution;
          total' = xresolution * yresolution
      in case iteration_limits num_threads yresolution of
           None \<Rightarrow> None
         | Some increments \<Rightarrow>
             (let threads = spawn_loop increments 0 []
              in Some (join_threads coeffs max_itr degree xresolution startx starty deltax
                         deltay total' (if num_threads > 1 then False else verbose) threads b,
                       INT_MAX)))"


section \<open>Concurrent execution of the workers\<close>

text \<open>
  The pixels \<open>(itr, jtr)\<close> that one thread handles, in the order of its two loops.
\<close>

definition worker_pixels :: "int \<Rightarrow> int \<times> int \<Rightarrow> (int \<times> int) list" where
  "worker_pixels xresolution thread =
     concat (map (\<lambda>itr. map (\<lambda>jtr. (itr, jtr)) [0..xresolution - 1])
       [fst thread..snd thread - 1])"

text \<open>
  \<open>interleaving xss s\<close>: the sequence \<open>s\<close> takes every element of every sequence of \<open>xss\<close>
  once, each sequence in its own order.
\<close>

inductive interleaving :: "'a list list \<Rightarrow> 'a list \<Rightarrow> bool" where
  finished: "\<forall>xs \<in> set xss. xs = [] \<Longrightarrow> interleaving xss []"
| step: "i < length xss \<Longrightarrow> xss ! i = x # xs \<Longrightarrow> interleaving (xss[i := xs]) s
         \<Longrightarrow> interleaving xss (x # s)"

code_pred interleaving .

text \<open>
  A schedule of a call of \<open>sample_newton\<close> is an interleaving of the pixel sequences of its
  threads; \<open>run_pixels\<close> executes the loop body pixel by pixel along a schedule.
\<close>

definition is_schedule :: "int \<Rightarrow> int \<Rightarrow> int \<Rightarrow> (int \<times> int) list \<Rightarrow> bool" where
  "is_schedule num_threads xresolution yresolution s =
     (case iteration_limits num_threads yresolution of
        None \<Rightarrow> False
      | Some increments \<Rightarrow>
          interleaving (map (worker_pixels xresolution) (spawn_loop increments 0 [])) s)"

definition run_pixels ::
  "(int \<Rightarrow> real) \<Rightarrow> int \<Rightarrow> int \<Rightarrow> real \<Rightarrow> real \<Rightarrow> real \<Rightarrow> real \<Rightarrow> (int \<times> int) list \<Rightarrow> buffers
   \<Rightarrow> buffers" where
  "run_pixels coeffs max_itr degree startx starty deltax deltay s b =
     fold (\<lambda>(itr, jtr). newton_pixel coeffs max_itr degree startx deltax itr
                          (starty + deltay * real_of_int itr) jtr) s b"


section \<open>RootAssigner: \<open>argmin\<close>\<close>

text \<open>
  A range \<open>[first, last)\<close> is the list of its elements and an iterator is a position in it.
  \<^verbatim>\<open>std::min_element\<close> is the standard library's: \<open>last\<close> for an empty range, otherwise
  the position \<open>smallest\<close> that a left-to-right scan keeps, replaced only by an element
  that compares less.
\<close>

function min_element_loop :: "'a list \<Rightarrow> ('a \<Rightarrow> 'a \<Rightarrow> bool) \<Rightarrow> nat \<Rightarrow> nat \<Rightarrow> nat" where
  "min_element_loop xs cmp smallest first =
     (if first < length xs then
        min_element_loop xs cmp (if cmp (xs ! first) (xs ! smallest) then first else smallest)
          (first + 1)
      else smallest)"
  by pat_completeness auto
termination
  by (relation "measure (\<lambda>(xs, cmp, smallest, first). length xs - first)") auto

declare min_element_loop.simps [simp del]

definition min_element :: "'a list \<Rightarrow> ('a \<Rightarrow> 'a \<Rightarrow> bool) \<Rightarrow> nat" where
  "min_element xs cmp = (if xs = [] then 0 else min_element_loop xs cmp 0 1)"

text \<open>
  \<^verbatim>\<open>std::min_element(first,last,comp)-first\<close>: positions are counted from \<open>first\<close>
  (\<open>cmp\<close> is the source's \<open>comp\<close>).
\<close>

definition argmin :: "'a list \<Rightarrow> ('a \<Rightarrow> 'a \<Rightarrow> bool) \<Rightarrow> nat" where
  "argmin xs cmp = min_element xs cmp"


section \<open>Functions declared in \<^verbatim>\<open>fractal.hpp\<close> whose bodies are not in the sources\<close>

text \<open>
  Modelled from the spec: the body of \<open>iterate\<close>, which \<^verbatim>\<open>fractal.hpp\<close> only declares
  (\<^verbatim>\<open>int iterate(std::complex<double> x, const std::complex<double> &c, const int max_itr)\<close>).
  Section 4.1 of the spec: iterate \<open>x \<leftarrow> x\<^sup>2 + c\<close> starting from \<open>x = 0\<close>; stop and return the
  iteration count \<open>k\<close> the first time \<open>|x| > 2\<close>, or return \<open>max_itr\<close> if no escape occurs
  within the bound. The count \<open>k\<close> is the number of updates applied to \<open>x\<close> so far; the
  starting value is the parameter \<open>x\<close>.
\<close>

function iterate_loop :: "complex \<Rightarrow> int \<Rightarrow> int \<Rightarrow> complex \<Rightarrow> int" where
  "iterate_loop c max_itr k x =
     (if k < max_itr then
        if cmod x > 2 then k else iterate_loop c max_itr (k + 1) (x * x + c)
      else max_itr)"
  by pat_completeness auto
termination
  by (relation "measure (\<lambda>(c, max_itr, k, x). nat (max_itr - k))") auto

declare iterate_loop.simps [simp del]

text \<open>
  Modelled from the spec: \<open>iterate\<close> itself, the loop above entered with the count \<open>0\<close>.
\<close>

definition iterate :: "complex \<Rightarrow> complex \<Rightarrow> int \<Rightarrow> int" where
  "iterate x c max_itr = iterate_loop c max_itr 0 x"

text \<open>
  Modelled from the spec: the body of \<open>assign_roots\<close>, which \<^verbatim>\<open>fractal.hpp\<close> only
  declares. Section 4.6 of the spec: for each pixel, compute the Euclidean distance from its
  converged value to every root in the list and record the index of the minimum-distance
  root; a pixel that carries the non-convergence value is a case of its own, with the
  reserved index \<open>- 1\<close> of section 3. The minimum is taken by \<open>argmin\<close> with \<open>(<)\<close>, the
  list of roots has \<open>degree\<close> entries, and cells outside the grid keep their content.
\<close>

definition root_distance :: "real \<Rightarrow> real \<Rightarrow> (int \<Rightarrow> real) \<Rightarrow> (int \<Rightarrow> real) \<Rightarrow> int \<Rightarrow> real" where
  "root_distance a b roots_re roots_im k =
     cmod (Complex a b - Complex (roots_re k) (roots_im k))"

text \<open>
  Modelled from the spec: the index recorded for one pixel whose buffers hold \<open>x\<close> and \<open>y\<close>.
\<close>

definition assign_root :: "double \<Rightarrow> double \<Rightarrow> (int \<Rightarrow> real) \<Rightarrow> (int \<Rightarrow> real) \<Rightarrow> int \<Rightarrow> int" where
  "assign_root x y roots_re roots_im degree =
     (case (x, y) of
        (Value a, Value b) \<Rightarrow>
          int (argmin (map (\<lambda>k. root_distance a b roots_re roots_im (int k)) [0..<nat degree])
                 (<))
      | _ \<Rightarrow> - 1)"

text \<open>
  Modelled from the spec: \<open>assign_roots\<close> itself, as the content of \<open>index\<close> after the call.
\<close>

definition assign_roots ::
  "(int \<Rightarrow> int \<Rightarrow> int) \<Rightarrow> (int \<Rightarrow> int \<Rightarrow> double) \<Rightarrow> (int \<Rightarrow> int \<Rightarrow> double) \<Rightarrow> (int \<Rightarrow> real)
   \<Rightarrow> (int \<Rightarrow> real) \<Rightarrow> int \<Rightarrow> int \<Rightarrow> int \<Rightarrow> int \<Rightarrow> int \<Rightarrow> int" where
  "assign_roots index re_in im_in roots_re roots_im degree xresolution yresolution =
     (\<lambda>r c. if 0 \<le> r \<and> r < yresolution \<and> 0 \<le> c \<and> c < xresolution
            then assign_root (re_in r c) (im_in r c) roots_re roots_im degree
            else index r c)"


section \<open>Vocabulary of the statements\<close>

text \<open>
  The pointer to the first element of an array that holds \<open>xs\<close>; only offsets inside the
  array are meant to be read.
\<close>

definition array :: "real list \<Rightarrow> int \<Rightarrow> real" where
  "array xs i = xs ! nat i"

text \<open>
  A grid whose cells all hold \<open>v\<close>, and output buffers before any sampling, filled with
  values that are told apart from what the examples below write.
\<close>

definition const_grid :: "'a \<Rightarrow> int \<Rightarrow> int \<Rightarrow> 'a" where
  "const_grid v r c = v"

definition blank_buffers :: buffers where
  "blank_buffers =
     \<lparr>re = const_grid (Value 7), im = const_grid (Value 7), iterations = const_grid (- 1)\<rparr>"



text \<open>
  The points that Newton's method visits from \<open>x0\<close>, the two tests of \<open>newton_root\<close> at a
  point, and the fact that the loop arrives at its iteration \<open>k\<close>: neither test has
  succeeded before.
\<close>

definition newton_step :: "(int \<Rightarrow> real) \<Rightarrow> int \<Rightarrow> complex \<Rightarrow> complex" where
  "newton_step coeffs degree x =
     x - fst (polynomial_and_deriv x coeffs degree) / snd (polynomial_and_deriv x coeffs degree)"

definition newton_iterate :: "(int \<Rightarrow> real) \<Rightarrow> int \<Rightarrow> complex \<Rightarrow> nat \<Rightarrow> complex" where
  "newton_iterate coeffs degree x0 k = (newton_step coeffs degree ^^ k) x0"

definition converged :: "(int \<Rightarrow> real) \<Rightarrow> int \<Rightarrow> real \<Rightarrow> complex \<Rightarrow> bool" where
  "converged coeffs degree tol x \<longleftrightarrow> cmod (fst (polynomial_and_deriv x coeffs degree)) < tol"

definition zero_derivative :: "(int \<Rightarrow> real) \<Rightarrow> int \<Rightarrow> complex \<Rightarrow> bool" where
  "zero_derivative coeffs degree x \<longleftrightarrow> snd (polynomial_and_deriv x coeffs degree) = 0"

definition reached :: "(int \<Rightarrow> real) \<Rightarrow> int \<Rightarrow> real \<Rightarrow> complex \<Rightarrow> nat \<Rightarrow> bool" where
  "reached coeffs degree tol x0 k \<longleftrightarrow>
     (\<forall>j<k. \<not> converged coeffs degree tol (newton_iterate coeffs degree x0 j)
           \<and> \<not> zero_derivative coeffs degree (newton_iterate coeffs degree x0 j))"

text \<open>
  What \<open>newton_root\<close> yields at the plane coordinate of row \<open>r\<close> and column \<open>c\<close>, and the
  buffers in which exactly the pixels of a set \<open>P\<close> hold these results.
\<close>

definition pixel_root ::
  "(int \<Rightarrow> real) \<Rightarrow> int \<Rightarrow> int \<Rightarrow> real \<Rightarrow> real \<Rightarrow> real \<Rightarrow> real \<Rightarrow> int \<Rightarrow> int
   \<Rightarrow> cdouble \<times> int \<times> complex list" where
  "pixel_root coeffs max_itr degree startx starty deltax deltay r c =
     newton_root coeffs
       (Complex (startx + deltax * real_of_int c) (starty + deltay * real_of_int r))
       degree max_itr (1 / 1000000)"

definition newton_image ::
  "(int \<Rightarrow> real) \<Rightarrow> int \<Rightarrow> int \<Rightarrow> real \<Rightarrow> real \<Rightarrow> real \<Rightarrow> real \<Rightarrow> (int \<times> int) set \<Rightarrow> buffers
   \<Rightarrow> buffers" where
  "newton_image coeffs max_itr degree startx starty deltax deltay P b =
     \<lparr>re = (\<lambda>r c. if (r, c) \<in> P
                  then real_part (fst (pixel_root coeffs max_itr degree startx starty deltax deltay r c))
                  else re b r c),
      im = (\<lambda>r c. if (r, c) \<in> P
                  then imag_part (fst (pixel_root coeffs max_itr degree startx starty deltax deltay r c))
                  else im b r c),
      iterations = (\<lambda>r c. if (r, c) \<in> P
                  then fst (snd (pixel_root coeffs max_itr degree startx starty deltax deltay r c))
                  else iterations b r c)\<rparr>"

text \<open>The orbit of \<open>x\<close> under \<open>x \<leftarrow> x\<^sup>2 + c\<close>.\<close>

definition orbit :: "complex \<Rightarrow> complex \<Rightarrow> nat \<Rightarrow> complex" where
  "orbit c x k = ((\<lambda>x. x * x + c) ^^ k) x"

text \<open>
  The requirements of C++ on a comparison (a strict weak ordering), and the first minimal
  element among the first \<open>n\<close> elements of \<open>xs\<close>: no element compares less than it, and it
  compares less than every element before it.
\<close>

definition strict_weak_order :: "('a \<Rightarrow> 'a \<Rightarrow> bool) \<Rightarrow> bool" where
  "strict_weak_order cmp \<longleftrightarrow>
     (\<forall>a. \<not> cmp a a) \<and> (\<forall>a b c. cmp a b \<and> cmp b c \<longrightarrow> cmp a c)
     \<and> (\<forall>a b c. cmp a b \<longrightarrow> cmp a c \<or> cmp c b)"

definition first_minimum :: "'a list \<Rightarrow> ('a \<Rightarrow> 'a \<Rightarrow> bool) \<Rightarrow> nat \<Rightarrow> nat \<Rightarrow> bool" where
  "first_minimum xs cmp n i \<longleftrightarrow>
     i < n \<and> (\<forall>j<n. \<not> cmp (xs ! j) (xs ! i)) \<and> (\<forall>j<i. cmp (xs ! i) (xs ! j))"


section \<open>Properties of the partitioner\<close>

lemma upt_int_step: "0 \<le> itr \<Longrightarrow> itr < n \<Longrightarrow> [nat itr..<nat n] = nat itr # [nat (itr + 1)..<nat n]"
proof -
  assume a: "0 \<le> itr" "itr < n"
  then have "nat itr < nat n" by simp
  then have "[nat itr..<nat n] = nat itr # [Suc (nat itr)..<nat n]" by (rule upt_conv_Cons)
  moreover have "Suc (nat itr) = nat (itr + 1)" using a by simp
  ultimately show ?thesis by simp
qed

lemma limits_loop_eq:
  "0 \<le> itr \<Longrightarrow> itr \<le> n \<Longrightarrow>
   limits_loop spn n itr out = out @ map (\<lambda>i. spn * int i) [nat itr..<nat n]"
proof (induction spn n itr out rule: limits_loop.induct)
  case (1 spn n itr out)
  show ?case
  proof (cases "itr < n")
    case True
    have "limits_loop spn n itr out = limits_loop spn n (itr + 1) (out @ [spn * itr])"
      using True by (subst limits_loop.simps) simp
    also have "\<dots> = (out @ [spn * itr]) @ map (\<lambda>i. spn * int i) [nat (itr + 1)..<nat n]"
      using True "1.prems" by (intro "1.IH") simp_all
    also have "\<dots> = out @ map (\<lambda>i. spn * int i) (nat itr # [nat (itr + 1)..<nat n])"
      using "1.prems" by simp
    finally show ?thesis
      using upt_int_step [OF "1.prems"(1) True] by simp
  next
    case False
    then have "itr = n" using "1.prems" by simp
    then show ?thesis by (subst limits_loop.simps) simp
  qed
qed

lemma union_adjacent:
  fixes f :: "nat \<Rightarrow> int"
  assumes "\<And>i. i < k \<Longrightarrow> f i \<le> f (Suc i)"
  shows "(\<Union>i<k. {f i..<f (Suc i)}) = {f 0..<f k}"
  using assms
proof (induction k)
  case 0
  show ?case by simp
next
  case (Suc k)
  note step = Suc.prems
  have mono: "f 0 \<le> f k"
  proof -
    have "j \<le> k \<Longrightarrow> f 0 \<le> f j" for j
    proof (induction j)
      case 0
      show ?case by simp
    next
      case (Suc j)
      then show ?case using step [of j] by simp
    qed
    then show ?thesis by simp
  qed
  have "(\<Union>i<Suc k. {f i..<f (Suc i)}) = (\<Union>i<k. {f i..<f (Suc i)}) \<union> {f k..<f (Suc k)}"
    by (simp add: lessThan_Suc Un_commute)
  also have "\<dots> = {f 0..<f k} \<union> {f k..<f (Suc k)}"
    using Suc by simp
  also have "\<dots> = {f 0..<f (Suc k)}"
    using mono step [of k] by (simp add: ivl_disj_un_two)
  finally show ?case .
qed

lemma disjoint_sorted:
  fixes bs :: "int list"
  assumes "sorted bs" and "i < j" and "Suc j < length bs"
  shows "{bs ! i..<bs ! Suc i} \<inter> {bs ! j..<bs ! Suc j} = {}"
proof -
  have "bs ! Suc i \<le> bs ! j"
    using assms by (intro sorted_nth_mono) simp_all
  then show ?thesis by auto
qed

lemma int_div_pos:
  "1 \<le> n \<Longrightarrow> 0 \<le> y \<Longrightarrow> int_div y n = Some (y div n)"
  by (cases "y = 0") (simp_all add: int_div_def INT_MIN_def)

lemma iteration_limits_eq:
  assumes "1 \<le> n" and "0 \<le> y"
  shows "iteration_limits n y = Some (map (\<lambda>i. (y div n) * int i) [0..<nat n] @ [y])"
  using assms limits_loop_eq [of 0 n "y div n" "[]"]
  by (simp add: iteration_limits_def int_div_pos)

lemma limits_nth:
  "i < k \<Longrightarrow> (map (\<lambda>i. s * int i) [0..<k] @ [y]) ! i = s * int i"
  "(map (\<lambda>i. s * int i) [0..<k] @ [y]) ! k = y"
  by (simp_all add: nth_append)

lemma limits_sorted:
  assumes "1 \<le> n" and "0 \<le> y"
  shows "sorted (map (\<lambda>i. (y div n) * int i) [0..<nat n] @ [y])"
proof -
  let ?s = "y div n"
  have s0: "0 \<le> ?s" using assms by (simp add: pos_imp_zdiv_nonneg_iff)
  have sn: "?s * n \<le> y"
  proof -
    have "?s * n + y mod n = y" by simp
    moreover have "0 \<le> y mod n" using assms by simp
    ultimately show ?thesis by linarith
  qed
  have a: "sorted (map (\<lambda>i. ?s * int i) [0..<nat n])"
    using s0 by (simp add: sorted_map sorted_wrt_iff_nth_less mult_left_mono)
  have b: "?s * int i \<le> y" if "i < nat n" for i
  proof -
    have "?s * int i \<le> ?s * n" using that s0 by (intro mult_left_mono) simp_all
    then show ?thesis using sn by simp
  qed
  show ?thesis using a b by (auto simp: sorted_append)
qed

lemma limits_loop_none:
  "num_threads \<le> itr \<Longrightarrow> limits_loop spn num_threads itr out = out"
  by (subst limits_loop.simps) simp

lemma iteration_limits_length:
  assumes "iteration_limits num_threads yresolution = Some increments"
  shows "length increments = nat num_threads + 1"
proof -
  obtain spn where inc: "increments = limits_loop spn num_threads 0 [] @ [yresolution]"
    using assms unfolding iteration_limits_def by (auto split: option.splits)
  show ?thesis
  proof (cases "0 \<le> num_threads")
    case True
    then show ?thesis using limits_loop_eq [of 0 num_threads spn "[]"] inc by simp
  next
    case False
    then show ?thesis using limits_loop_none [of num_threads 0 spn "[]"] inc by simp
  qed
qed

lemma limits_cover:
  assumes "1 \<le> n" and "0 \<le> y"
  shows "(\<Union>i<nat n. {(map (\<lambda>i. (y div n) * int i) [0..<nat n] @ [y]) ! i
            ..<(map (\<lambda>i. (y div n) * int i) [0..<nat n] @ [y]) ! (i + 1)}) = {0..<y}"
proof -
  let ?bs = "map (\<lambda>i. (y div n) * int i) [0..<nat n] @ [y]"
  have srt: "sorted ?bs" using assms by (rule limits_sorted)
  have pos: "0 < nat n" using assms by simp
  have "(\<Union>i<nat n. {?bs ! i..<?bs ! Suc i}) = {?bs ! 0..<?bs ! nat n}"
  proof (rule union_adjacent)
    fix i assume "i < nat n"
    then show "?bs ! i \<le> ?bs ! Suc i"
      using srt by (intro sorted_nth_mono) simp_all
  qed
  then show ?thesis
    using pos limits_nth(1) [of 0 "nat n"] limits_nth(2) [of _ "nat n"] by simp
qed

text \<open>
  Claim C1. For \<open>num_threads \<ge> 1\<close> and \<open>yresolution \<ge> 1\<close>, \<open>iteration_limits\<close>
  writes exactly \<open>num_threads + 1\<close> boundaries \<open>0, span, 2 * span, \<dots>,
  (num_threads - 1) * span, yresolution\<close> with \<open>span\<close> the integer quotient of
  \<open>yresolution\<close> by \<open>num_threads\<close>. The sequence is non-decreasing, starts at \<open>0\<close> and
  ends at \<open>yresolution\<close>; the half-open intervals between consecutive boundaries are
  pairwise disjoint and their union is \<open>[0, yresolution)\<close>.
\<close>

theorem iteration_limits_partition:
  assumes "1 \<le> num_threads" and "1 \<le> yresolution"
  shows "\<exists>bs. iteration_limits num_threads yresolution = Some bs
    \<and> bs = map (\<lambda>i. (yresolution div num_threads) * int i) [0..<nat num_threads] @ [yresolution]
    \<and> length bs = nat num_threads + 1
    \<and> sorted bs \<and> hd bs = 0 \<and> last bs = yresolution
    \<and> (\<forall>i j. i < j \<and> j < nat num_threads \<longrightarrow>
          {bs ! i..<bs ! (i + 1)} \<inter> {bs ! j..<bs ! (j + 1)} = {})
    \<and> (\<Union>i<nat num_threads. {bs ! i..<bs ! (i + 1)}) = {0..<yresolution}"
proof -
  let ?bs = "map (\<lambda>i. (yresolution div num_threads) * int i) [0..<nat num_threads] @ [yresolution]"
  have eq: "iteration_limits num_threads yresolution = Some ?bs"
    using assms by (simp add: iteration_limits_eq)
  have len: "length ?bs = nat num_threads + 1" by simp
  have srt: "sorted ?bs" using assms by (simp add: limits_sorted)
  have pos: "0 < nat num_threads" using assms by simp
  have hd0: "hd ?bs = 0"
    using pos limits_nth(1) [of 0 "nat num_threads"] by (simp add: hd_conv_nth)
  have lst: "last ?bs = yresolution" by simp
  have dis: "{?bs ! i..<?bs ! (i + 1)} \<inter> {?bs ! j..<?bs ! (j + 1)} = {}"
    if "i < j" "j < nat num_threads" for i j
    using disjoint_sorted [OF srt that(1)] that(2) by simp
  have cov: "(\<Union>i<nat num_threads. {?bs ! i..<?bs ! (i + 1)}) = {0..<yresolution}"
    using assms by (intro limits_cover) simp_all
  show ?thesis
    using eq len srt hd0 lst dis cov by blast
qed

theorem iteration_limits_partition_witness:
  "iteration_limits 3 10 = Some [0, 3, 6, 10]
   \<and> (\<Union>i<3. {[0, 3, 6, 10::int] ! i..<[0, 3, 6, 10] ! (i + 1)}) = {0..<10}"
  using iteration_limits_partition [of 3 10]
  by (simp add: eval_nat_numeral upt_rec)


section \<open>Properties of \<open>polynomial_and_deriv\<close>\<close>

















section \<open>Properties of \<open>newton_root\<close>\<close>

lemma newton_loop_unfold:
  "newton_loop coeffs init degree max_itr tol itr x =
     (if itr < max_itr then
        if converged coeffs degree tol x then (Finite x, itr, [])
        else if zero_derivative coeffs degree x then (Infinite, INT_MAX, [init])
        else newton_loop coeffs init degree max_itr tol (itr + 1) (newton_step coeffs degree x)
      else (Infinite, INT_MAX, []))"
  by (subst newton_loop.simps)
    (simp add: converged_def zero_derivative_def newton_step_def split_beta)

lemma newton_iterate_0 [simp]: "newton_iterate coeffs degree x 0 = x"
  by (simp add: newton_iterate_def)

lemma newton_iterate_Suc:
  "newton_iterate coeffs degree x (Suc k) =
   newton_iterate coeffs degree (newton_step coeffs degree x) k"
  by (simp add: newton_iterate_def funpow_swap1)

lemma reached_Suc:
  "reached coeffs degree tol x (Suc k) \<longleftrightarrow>
     \<not> converged coeffs degree tol x \<and> \<not> zero_derivative coeffs degree x
     \<and> reached coeffs degree tol (newton_step coeffs degree x) k"
  unfolding reached_def
  by (auto simp: less_Suc_eq_0_disj newton_iterate_Suc)

lemma newton_loop_stops:
  assumes "itr + int k < max_itr"
    and "reached coeffs degree tol x k"
    and "converged coeffs degree tol (newton_iterate coeffs degree x k)
         \<or> zero_derivative coeffs degree (newton_iterate coeffs degree x k)"
  shows "newton_loop coeffs init degree max_itr tol itr x =
     (if converged coeffs degree tol (newton_iterate coeffs degree x k)
      then (Finite (newton_iterate coeffs degree x k), itr + int k, [])
      else (Infinite, INT_MAX, [init]))"
  using assms
proof (induction k arbitrary: itr x)
  case 0
  then show ?case by (subst newton_loop_unfold) auto
next
  case (Suc k)
  from Suc.prems(2) have now: "\<not> converged coeffs degree tol x"
      "\<not> zero_derivative coeffs degree x"
    and later: "reached coeffs degree tol (newton_step coeffs degree x) k"
    by (simp_all add: reached_Suc)
  have "newton_loop coeffs init degree max_itr tol itr x =
        newton_loop coeffs init degree max_itr tol (itr + 1) (newton_step coeffs degree x)"
    using now Suc.prems(1) by (subst newton_loop_unfold) simp
  also have "\<dots> =
     (if converged coeffs degree tol (newton_iterate coeffs degree (newton_step coeffs degree x) k)
      then (Finite (newton_iterate coeffs degree (newton_step coeffs degree x) k), itr + 1 + int k, [])
      else (Infinite, INT_MAX, [init]))"
    using Suc.prems(1,3) later by (intro Suc.IH) (simp_all add: newton_iterate_Suc)
  finally show ?case by (simp add: newton_iterate_Suc add.assoc)
qed

lemma newton_loop_exhausted:
  assumes "\<And>j. itr + int j < max_itr \<Longrightarrow>
             \<not> converged coeffs degree tol (newton_iterate coeffs degree x j)
             \<and> \<not> zero_derivative coeffs degree (newton_iterate coeffs degree x j)"
  shows "newton_loop coeffs init degree max_itr tol itr x = (Infinite, INT_MAX, [])"
  using assms
proof (induction "nat (max_itr - itr)" arbitrary: itr x)
  case 0
  then show ?case by (subst newton_loop_unfold) simp
next
  case (Suc n)
  then have lt: "itr < max_itr" by simp
  have now: "\<not> converged coeffs degree tol x \<and> \<not> zero_derivative coeffs degree x"
    using Suc.prems [of 0] lt by simp
  have "newton_loop coeffs init degree max_itr tol (itr + 1) (newton_step coeffs degree x)
        = (Infinite, INT_MAX, [])"
  proof (rule Suc.hyps(1))
    show "n = nat (max_itr - (itr + 1))" using Suc.hyps(2) by simp
  next
    fix j assume "itr + 1 + int j < max_itr"
    then show "\<not> converged coeffs degree tol (newton_iterate coeffs degree (newton_step coeffs degree x) j)
             \<and> \<not> zero_derivative coeffs degree (newton_iterate coeffs degree (newton_step coeffs degree x) j)"
      using Suc.prems [of "Suc j"] by (simp add: newton_iterate_Suc)
  qed
  then show ?case using now lt by (subst newton_loop_unfold) simp
qed

lemma first_stop:
  assumes "int k < max_itr"
    and "converged coeffs degree tol (newton_iterate coeffs degree x k)
         \<or> zero_derivative coeffs degree (newton_iterate coeffs degree x k)"
  shows "\<exists>m. int m < max_itr \<and> reached coeffs degree tol x m
     \<and> (converged coeffs degree tol (newton_iterate coeffs degree x m)
         \<or> zero_derivative coeffs degree (newton_iterate coeffs degree x m))"
proof -
  let ?P = "\<lambda>m. converged coeffs degree tol (newton_iterate coeffs degree x m)
         \<or> zero_derivative coeffs degree (newton_iterate coeffs degree x m)"
  define m where "m = (LEAST m. ?P m)"
  have "?P k" using assms(2) .
  then have "?P m" and "m \<le> k" and "\<And>j. j < m \<Longrightarrow> \<not> ?P j"
    unfolding m_def by (rule LeastI, rule Least_le, auto dest: not_less_Least)
  then show ?thesis
    using assms(1) unfolding reached_def by (intro exI [of _ m]) auto
qed


lemma newton_root_stops:
  assumes "int k < max_itr" and "reached coeffs degree tol x0 k"
    and "converged coeffs degree tol (newton_iterate coeffs degree x0 k)
         \<or> zero_derivative coeffs degree (newton_iterate coeffs degree x0 k)"
  shows "newton_root coeffs x0 degree max_itr tol =
     (if converged coeffs degree tol (newton_iterate coeffs degree x0 k)
      then (Finite (newton_iterate coeffs degree x0 k), int k, [])
      else (Infinite, INT_MAX, [x0]))"
  unfolding newton_root_def
  using newton_loop_stops [of 0 k max_itr coeffs degree tol x0 x0] assms by simp

lemma newton_root_exhausted:
  assumes "\<forall>k. int k < max_itr
        \<longrightarrow> \<not> converged coeffs degree tol (newton_iterate coeffs degree x0 k)
          \<and> \<not> zero_derivative coeffs degree (newton_iterate coeffs degree x0 k)"
  shows "newton_root coeffs x0 degree max_itr tol = (Infinite, INT_MAX, [])"
  unfolding newton_root_def
  using assms by (intro newton_loop_exhausted) simp

text \<open>
  Claim C2. \<open>newton_root\<close> has exactly three outcomes. (1) If the loop arrives at an
  iteration \<open>k < max_itr\<close> where \<open>|f(x)| < tol\<close>, it returns the current \<open>x\<close> and stores \<open>k\<close>
  as the iteration count. (2) If it arrives at an iteration where \<open>|f(x)| < tol\<close> fails
  and the derivative is exactly \<open>0\<close>, it stores the largest \<open>int\<close>, returns
  \<open>(infinity, infinity)\<close> and reports the starting point. (3) If neither happens within
  \<open>max_itr\<close> iterations, it stores the largest \<open>int\<close> and returns \<open>(infinity, infinity)\<close>.
  One of the three always applies; \<open>newton_root\<close> is total, no outcome is an error.
\<close>

theorem newton_root_outcomes:
  "(\<forall>k. int k < max_itr \<and> reached coeffs degree tol x0 k
        \<and> converged coeffs degree tol (newton_iterate coeffs degree x0 k)
      \<longrightarrow> newton_root coeffs x0 degree max_itr tol
            = (Finite (newton_iterate coeffs degree x0 k), int k, []))
   \<and> (\<forall>k. int k < max_itr \<and> reached coeffs degree tol x0 k
        \<and> \<not> converged coeffs degree tol (newton_iterate coeffs degree x0 k)
        \<and> zero_derivative coeffs degree (newton_iterate coeffs degree x0 k)
      \<longrightarrow> newton_root coeffs x0 degree max_itr tol = (Infinite, INT_MAX, [x0]))
   \<and> ((\<forall>k. int k < max_itr
        \<longrightarrow> \<not> converged coeffs degree tol (newton_iterate coeffs degree x0 k)
          \<and> \<not> zero_derivative coeffs degree (newton_iterate coeffs degree x0 k))
      \<longrightarrow> newton_root coeffs x0 degree max_itr tol = (Infinite, INT_MAX, []))
   \<and> ((\<exists>k. int k < max_itr \<and> reached coeffs degree tol x0 k
          \<and> converged coeffs degree tol (newton_iterate coeffs degree x0 k))
      \<or> (\<exists>k. int k < max_itr \<and> reached coeffs degree tol x0 k
          \<and> \<not> converged coeffs degree tol (newton_iterate coeffs degree x0 k)
          \<and> zero_derivative coeffs degree (newton_iterate coeffs degree x0 k))
      \<or> (\<forall>k. int k < max_itr
          \<longrightarrow> \<not> converged coeffs degree tol (newton_iterate coeffs degree x0 k)
            \<and> \<not> zero_derivative coeffs degree (newton_iterate coeffs degree x0 k)))"
proof (intro conjI allI impI)
  fix k
  assume "int k < max_itr \<and> reached coeffs degree tol x0 k
        \<and> converged coeffs degree tol (newton_iterate coeffs degree x0 k)"
  then have "int k < max_itr" and "reached coeffs degree tol x0 k"
    and c: "converged coeffs degree tol (newton_iterate coeffs degree x0 k)"
    by simp_all
  from newton_root_stops [OF this(1,2)] c
  show "newton_root coeffs x0 degree max_itr tol
            = (Finite (newton_iterate coeffs degree x0 k), int k, [])"
    by simp
next
  fix k
  assume "int k < max_itr \<and> reached coeffs degree tol x0 k
        \<and> \<not> converged coeffs degree tol (newton_iterate coeffs degree x0 k)
        \<and> zero_derivative coeffs degree (newton_iterate coeffs degree x0 k)"
  then have "int k < max_itr" and "reached coeffs degree tol x0 k"
    and c: "\<not> converged coeffs degree tol (newton_iterate coeffs degree x0 k)"
      "zero_derivative coeffs degree (newton_iterate coeffs degree x0 k)"
    by simp_all
  from newton_root_stops [OF this(1,2)] c
  show "newton_root coeffs x0 degree max_itr tol = (Infinite, INT_MAX, [x0])"
    by simp
next
  assume "\<forall>k. int k < max_itr
        \<longrightarrow> \<not> converged coeffs degree tol (newton_iterate coeffs degree x0 k)
          \<and> \<not> zero_derivative coeffs degree (newton_iterate coeffs degree x0 k)"
  then show "newton_root coeffs x0 degree max_itr tol = (Infinite, INT_MAX, [])"
    by (rule newton_root_exhausted)
next
  show "(\<exists>k. int k < max_itr \<and> reached coeffs degree tol x0 k
          \<and> converged coeffs degree tol (newton_iterate coeffs degree x0 k))
      \<or> (\<exists>k. int k < max_itr \<and> reached coeffs degree tol x0 k
          \<and> \<not> converged coeffs degree tol (newton_iterate coeffs degree x0 k)
          \<and> zero_derivative coeffs degree (newton_iterate coeffs degree x0 k))
      \<or> (\<forall>k. int k < max_itr
          \<longrightarrow> \<not> converged coeffs degree tol (newton_iterate coeffs degree x0 k)
            \<and> \<not> zero_derivative coeffs degree (newton_iterate coeffs degree x0 k))"
    using first_stop [of _ max_itr coeffs degree tol x0] by blast
qed

lemma pd_linear: "polynomial_and_deriv x (array [0, 1]) 1 = (x, 1)"
  by (simp add: polynomial_and_deriv_def horner_loop.simps array_def)

lemma pd_square_plus_one: "polynomial_and_deriv x (array [1, 0, 1]) 2 = (x * x + 1, x + x)"
  by (simp add: polynomial_and_deriv_def horner_loop.simps array_def algebra_simps)

lemma iterate_linear: "newton_iterate (array [0, 1]) 1 5 (Suc 0) = 0"
  by (simp add: newton_iterate_def newton_step_def pd_linear)

theorem newton_root_outcomes_witness:
  "newton_root (array [0, 1]) 5 1 10 (1 / 1000000) = (Finite 0, 1, [])
   \<and> newton_root (array [1, 0, 1]) 0 2 10 (1 / 1000000) = (Infinite, INT_MAX, [0])
   \<and> newton_root (array [1, 0, 1]) 1 2 1 (1 / 1000000) = (Infinite, INT_MAX, [])"
proof (intro conjI)
  have "int (Suc 0) < 10 \<and> reached (array [0, 1]) 1 (1 / 1000000) 5 (Suc 0)
      \<and> converged (array [0, 1]) 1 (1 / 1000000) (newton_iterate (array [0, 1]) 1 5 (Suc 0))"
    unfolding iterate_linear
    by (simp add: reached_def converged_def zero_derivative_def pd_linear)
  with newton_root_outcomes [of 10 "array [0, 1]" 1 "1 / 1000000" 5]
  have "newton_root (array [0, 1]) 5 1 10 (1 / 1000000)
      = (Finite (newton_iterate (array [0, 1]) 1 5 (Suc 0)), int (Suc 0), [])"
    by blast
  then show "newton_root (array [0, 1]) 5 1 10 (1 / 1000000) = (Finite 0, 1, [])"
    by (simp add: iterate_linear)
next
  have "int 0 < 10 \<and> reached (array [1, 0, 1]) 2 (1 / 1000000) 0 0
      \<and> \<not> converged (array [1, 0, 1]) 2 (1 / 1000000) (newton_iterate (array [1, 0, 1]) 2 0 0)
      \<and> zero_derivative (array [1, 0, 1]) 2 (newton_iterate (array [1, 0, 1]) 2 0 0)"
    by (simp add: reached_def converged_def zero_derivative_def pd_square_plus_one)
  with newton_root_outcomes [of 10 "array [1, 0, 1]" 2 "1 / 1000000" 0]
  show "newton_root (array [1, 0, 1]) 0 2 10 (1 / 1000000) = (Infinite, INT_MAX, [0])"
    by blast
next
  have "\<forall>k. int k < 1
        \<longrightarrow> \<not> converged (array [1, 0, 1]) 2 (1 / 1000000) (newton_iterate (array [1, 0, 1]) 2 1 k)
          \<and> \<not> zero_derivative (array [1, 0, 1]) 2 (newton_iterate (array [1, 0, 1]) 2 1 k)"
    by (simp add: converged_def zero_derivative_def pd_square_plus_one)
  with newton_root_outcomes [of 1 "array [1, 0, 1]" 2 "1 / 1000000" 1]
  show "newton_root (array [1, 0, 1]) 1 2 1 (1 / 1000000) = (Infinite, INT_MAX, [])"
    by blast
qed

lemma pd_square: "polynomial_and_deriv x (array [0, 0, 1]) 2 = (x * x, x + x)"
  by (simp add: polynomial_and_deriv_def horner_loop.simps array_def algebra_simps)

text \<open>
  Claim C10, as stated, fails when the loop never runs: with \<open>max_itr = 0\<close> the starting
  point \<open>0\<close> of \<open>x\<^sup>2\<close> satisfies \<open>|p(x0)| < tol\<close>, and \<open>newton_root\<close> returns
  \<open>(infinity, infinity)\<close> with the largest \<open>int\<close> as the iteration count.
\<close>

theorem newton_root_no_iteration_counterexample:
  "converged (array [0, 0, 1]) 2 (1 / 1000000) 0
   \<and> newton_root (array [0, 0, 1]) 0 2 0 (1 / 1000000) = (Infinite, INT_MAX, [])"
  by (simp add: converged_def pd_square newton_root_def newton_loop.simps)

text \<open>
  Claim C10, amended. In each iteration of \<open>newton_root\<close> the convergence test precedes
  the zero-derivative test: whenever \<open>max_itr \<ge> 1\<close> and \<open>|p(x0)| < tol\<close>, the function
  returns \<open>x0\<close> with the iteration count \<open>0\<close>, also when \<open>p'(x0) = 0\<close>. The
  zero-derivative outcome (the one that reports the starting point) arises only when the
  loop arrives at a point where the derivative is \<open>0\<close> and \<open>|p(x)| < tol\<close> fails.
\<close>

theorem newton_root_convergence_first:
  "(1 \<le> max_itr \<and> converged coeffs degree tol x0
      \<longrightarrow> newton_root coeffs x0 degree max_itr tol = (Finite x0, 0, []))
   \<and> (snd (snd (newton_root coeffs x0 degree max_itr tol)) \<noteq> []
      \<longrightarrow> newton_root coeffs x0 degree max_itr tol = (Infinite, INT_MAX, [x0])
        \<and> (\<exists>k. int k < max_itr \<and> reached coeffs degree tol x0 k
              \<and> \<not> converged coeffs degree tol (newton_iterate coeffs degree x0 k)
              \<and> zero_derivative coeffs degree (newton_iterate coeffs degree x0 k)))"
proof (rule conjI; rule impI)
  assume "1 \<le> max_itr \<and> converged coeffs degree tol x0"
  then have "int 0 < max_itr" and "reached coeffs degree tol x0 0"
    and c: "converged coeffs degree tol (newton_iterate coeffs degree x0 0)"
    by (simp_all add: reached_def)
  from newton_root_stops [OF this(1,2)] c
  show "newton_root coeffs x0 degree max_itr tol = (Finite x0, 0, [])" by simp
next
  assume msg: "snd (snd (newton_root coeffs x0 degree max_itr tol)) \<noteq> []"
  have ex: "\<exists>k. int k < max_itr
      \<and> (converged coeffs degree tol (newton_iterate coeffs degree x0 k)
         \<or> zero_derivative coeffs degree (newton_iterate coeffs degree x0 k))"
  proof (rule ccontr)
    assume "\<not> ?thesis"
    then have "newton_root coeffs x0 degree max_itr tol = (Infinite, INT_MAX, [])"
      by (intro newton_root_exhausted) blast
    then show False using msg by simp
  qed
  then obtain m where m: "int m < max_itr" "reached coeffs degree tol x0 m"
      "converged coeffs degree tol (newton_iterate coeffs degree x0 m)
         \<or> zero_derivative coeffs degree (newton_iterate coeffs degree x0 m)"
    using first_stop [of _ max_itr coeffs degree tol x0] by blast
  have nc: "\<not> converged coeffs degree tol (newton_iterate coeffs degree x0 m)"
  proof
    assume "converged coeffs degree tol (newton_iterate coeffs degree x0 m)"
    then have "newton_root coeffs x0 degree max_itr tol
        = (Finite (newton_iterate coeffs degree x0 m), int m, [])"
      using newton_root_stops [OF m] by simp
    then show False using msg by simp
  qed
  then have "newton_root coeffs x0 degree max_itr tol = (Infinite, INT_MAX, [x0])"
    using newton_root_stops [OF m] by simp
  moreover have "\<exists>k. int k < max_itr \<and> reached coeffs degree tol x0 k
      \<and> \<not> converged coeffs degree tol (newton_iterate coeffs degree x0 k)
      \<and> zero_derivative coeffs degree (newton_iterate coeffs degree x0 k)"
    using m nc by blast
  ultimately show "newton_root coeffs x0 degree max_itr tol = (Infinite, INT_MAX, [x0])
        \<and> (\<exists>k. int k < max_itr \<and> reached coeffs degree tol x0 k
              \<and> \<not> converged coeffs degree tol (newton_iterate coeffs degree x0 k)
              \<and> zero_derivative coeffs degree (newton_iterate coeffs degree x0 k))"
    by simp
qed

lemma newton_root_zero_derivative_example:
  "newton_root (array [1, 0, 1]) 0 2 10 (1 / 1000000) = (Infinite, INT_MAX, [0])"
  by (simp add: newton_root_def newton_loop.simps pd_square_plus_one)

theorem newton_root_convergence_first_witness:
  "zero_derivative (array [0, 0, 1]) 2 0
   \<and> newton_root (array [0, 0, 1]) 0 2 1 (1 / 1000000) = (Finite 0, 0, [])
   \<and> (\<exists>k. int k < 10 \<and> reached (array [1, 0, 1]) 2 (1 / 1000000) 0 k
        \<and> \<not> converged (array [1, 0, 1]) 2 (1 / 1000000) (newton_iterate (array [1, 0, 1]) 2 0 k)
        \<and> zero_derivative (array [1, 0, 1]) 2 (newton_iterate (array [1, 0, 1]) 2 0 k))"
proof (intro conjI)
  show "zero_derivative (array [0, 0, 1]) 2 0"
    by (simp add: zero_derivative_def pd_square)
  have "1 \<le> (1::int) \<and> converged (array [0, 0, 1]) 2 (1 / 1000000) 0"
    by (simp add: converged_def pd_square)
  with newton_root_convergence_first [of 1 "array [0, 0, 1]" 2 "1 / 1000000" 0]
  show "newton_root (array [0, 0, 1]) 0 2 1 (1 / 1000000) = (Finite 0, 0, [])"
    by blast
  have "snd (snd (newton_root (array [1, 0, 1]) 0 2 10 (1 / 1000000))) \<noteq> []"
    by (simp add: newton_root_zero_derivative_example)
  with newton_root_convergence_first [of 10 "array [1, 0, 1]" 2 "1 / 1000000" 0]
  show "\<exists>k. int k < 10 \<and> reached (array [1, 0, 1]) 2 (1 / 1000000) 0 k
        \<and> \<not> converged (array [1, 0, 1]) 2 (1 / 1000000) (newton_iterate (array [1, 0, 1]) 2 0 k)
        \<and> zero_derivative (array [1, 0, 1]) 2 (newton_iterate (array [1, 0, 1]) 2 0 k)"
    by blast
qed


section \<open>Properties of \<open>compute_newton_range\<close>\<close>

lemma newton_image_empty [simp]:
  "newton_image coeffs max_itr degree startx starty deltax deltay {} b = b"
  by (simp add: newton_image_def)

lemma newton_image_union:
  "newton_image coeffs max_itr degree startx starty deltax deltay P
     (newton_image coeffs max_itr degree startx starty deltax deltay Q b)
   = newton_image coeffs max_itr degree startx starty deltax deltay (P \<union> Q) b"
  by (simp add: newton_image_def fun_eq_iff)

lemma newton_pixel_image:
  "newton_pixel coeffs max_itr degree startx deltax itr (starty + deltay * real_of_int itr) jtr b
   = newton_image coeffs max_itr degree startx starty deltax deltay {(itr, jtr)} b"
  by (simp add: newton_pixel_def newton_image_def pixel_root_def split_beta Let_def fun_eq_iff)

lemma newton_cols_image:
  "newton_cols coeffs max_itr degree xresolution startx deltax itr
     (starty + deltay * real_of_int itr) jtr b
   = newton_image coeffs max_itr degree startx starty deltax deltay
       {(r, c). r = itr \<and> jtr \<le> c \<and> c < xresolution} b"
proof (induction coeffs max_itr degree xresolution startx deltax itr
    "starty + deltay * real_of_int itr" jtr b rule: newton_cols.induct)
  case (1 coeffs max_itr degree xresolution startx deltax itr jtr b)
  show ?case
  proof (cases "jtr < xresolution")
    case True
    have split: "{(r, c). r = itr \<and> jtr + 1 \<le> c \<and> c < xresolution} \<union> {(itr, jtr)}
        = {(r, c). r = itr \<and> jtr \<le> c \<and> c < xresolution}"
      using True by auto
    have "newton_cols coeffs max_itr degree xresolution startx deltax itr
            (starty + deltay * real_of_int itr) jtr b
        = newton_cols coeffs max_itr degree xresolution startx deltax itr
            (starty + deltay * real_of_int itr) (jtr + 1)
            (newton_pixel coeffs max_itr degree startx deltax itr
               (starty + deltay * real_of_int itr) jtr b)"
      using True by (subst newton_cols.simps) simp
    also have "\<dots> = newton_image coeffs max_itr degree startx starty deltax deltay
          {(r, c). r = itr \<and> jtr + 1 \<le> c \<and> c < xresolution}
          (newton_pixel coeffs max_itr degree startx deltax itr
             (starty + deltay * real_of_int itr) jtr b)"
      by (rule "1.hyps" [OF True])
    also have "\<dots> = newton_image coeffs max_itr degree startx starty deltax deltay
          {(r, c). r = itr \<and> jtr + 1 \<le> c \<and> c < xresolution}
          (newton_image coeffs max_itr degree startx starty deltax deltay {(itr, jtr)} b)"
      unfolding newton_pixel_image ..
    also have "\<dots> = newton_image coeffs max_itr degree startx starty deltax deltay
          {(r, c). r = itr \<and> jtr \<le> c \<and> c < xresolution} b"
      unfolding newton_image_union split ..
    finally show ?thesis .
  next
    case False
    then have none: "{(r, c). r = itr \<and> jtr \<le> c \<and> c < xresolution} = {}" by auto
    show ?thesis
      unfolding none newton_image_empty
      using False by (subst newton_cols.simps) simp
  qed
qed

lemma newton_rows_image:
  "newton_rows coeffs max_itr degree xresolution end_itr startx starty deltax deltay itr b
   = newton_image coeffs max_itr degree startx starty deltax deltay
       {(r, c). itr \<le> r \<and> r < end_itr \<and> 0 \<le> c \<and> c < xresolution} b"
proof (induction coeffs max_itr degree xresolution end_itr startx starty deltax deltay itr b
    rule: newton_rows.induct)
  case (1 coeffs max_itr degree xresolution end_itr startx starty deltax deltay itr b)
  show ?case
  proof (cases "itr < end_itr")
    case True
    have split: "{(r, c). itr + 1 \<le> r \<and> r < end_itr \<and> 0 \<le> c \<and> c < xresolution}
          \<union> {(r, c). r = itr \<and> 0 \<le> c \<and> c < xresolution}
        = {(r, c). itr \<le> r \<and> r < end_itr \<and> 0 \<le> c \<and> c < xresolution}"
      using True by auto
    have "newton_rows coeffs max_itr degree xresolution end_itr startx starty deltax deltay itr b
        = newton_rows coeffs max_itr degree xresolution end_itr startx starty deltax deltay
            (itr + 1)
            (newton_cols coeffs max_itr degree xresolution startx deltax itr
               (starty + deltay * real_of_int itr) 0 b)"
      using True by (subst newton_rows.simps) (simp add: Let_def)
    also have "\<dots> = newton_image coeffs max_itr degree startx starty deltax deltay
          {(r, c). itr + 1 \<le> r \<and> r < end_itr \<and> 0 \<le> c \<and> c < xresolution}
          (newton_cols coeffs max_itr degree xresolution startx deltax itr
             (starty + deltay * real_of_int itr) 0 b)"
      by (rule "1.IH" [OF True refl])
    also have "\<dots> = newton_image coeffs max_itr degree startx starty deltax deltay
          {(r, c). itr + 1 \<le> r \<and> r < end_itr \<and> 0 \<le> c \<and> c < xresolution}
          (newton_image coeffs max_itr degree startx starty deltax deltay
             {(r, c). r = itr \<and> 0 \<le> c \<and> c < xresolution} b)"
      unfolding newton_cols_image ..
    also have "\<dots> = newton_image coeffs max_itr degree startx starty deltax deltay
          {(r, c). itr \<le> r \<and> r < end_itr \<and> 0 \<le> c \<and> c < xresolution} b"
      unfolding newton_image_union split ..
    finally show ?thesis .
  next
    case False
    then have none: "{(r, c). itr \<le> r \<and> r < end_itr \<and> 0 \<le> c \<and> c < xresolution} = {}"
      by auto
    show ?thesis
      unfolding none newton_image_empty
      using False by (subst newton_rows.simps) simp
  qed
qed

lemma compute_newton_range_image:
  "compute_newton_range b coeffs max_itr degree xresolution start_itr end_itr startx starty
     deltax deltay total' verbose
   = newton_image coeffs max_itr degree startx starty deltax deltay
       {(r, c). start_itr \<le> r \<and> r < end_itr \<and> 0 \<le> c \<and> c < xresolution} b"
  by (simp add: compute_newton_range_def newton_rows_image)

text \<open>
  Claim C4. For every row \<open>r\<close> of \<open>[start_itr, end_itr)\<close> and every column \<open>c\<close> of
  \<open>[0, xresolution)\<close>, \<open>compute_newton_range\<close> leaves in \<open>re[r][c]\<close>, \<open>im[r][c]\<close> and
  \<open>iterations[r][c]\<close> the real part, the imaginary part and the iteration count of
  \<open>newton_root\<close> run with tolerance \<open>1e-6\<close> on the plane coordinate
  \<open>(startx + deltax * c, starty + deltay * r)\<close>; every other cell of the three buffers keeps
  its content.
\<close>

theorem compute_newton_range_writes:
  "(start_itr \<le> r \<and> r < end_itr \<and> 0 \<le> c \<and> c < xresolution \<longrightarrow>
      re (compute_newton_range b coeffs max_itr degree xresolution start_itr end_itr startx
            starty deltax deltay total' verbose) r c
        = real_part (fst (newton_root coeffs
            (Complex (startx + deltax * real_of_int c) (starty + deltay * real_of_int r))
            degree max_itr (1 / 1000000)))
    \<and> im (compute_newton_range b coeffs max_itr degree xresolution start_itr end_itr startx
            starty deltax deltay total' verbose) r c
        = imag_part (fst (newton_root coeffs
            (Complex (startx + deltax * real_of_int c) (starty + deltay * real_of_int r))
            degree max_itr (1 / 1000000)))
    \<and> iterations (compute_newton_range b coeffs max_itr degree xresolution start_itr end_itr
            startx starty deltax deltay total' verbose) r c
        = fst (snd (newton_root coeffs
            (Complex (startx + deltax * real_of_int c) (starty + deltay * real_of_int r))
            degree max_itr (1 / 1000000))))
   \<and> (\<not> (start_itr \<le> r \<and> r < end_itr \<and> 0 \<le> c \<and> c < xresolution) \<longrightarrow>
      re (compute_newton_range b coeffs max_itr degree xresolution start_itr end_itr startx
            starty deltax deltay total' verbose) r c = re b r c
    \<and> im (compute_newton_range b coeffs max_itr degree xresolution start_itr end_itr startx
            starty deltax deltay total' verbose) r c = im b r c
    \<and> iterations (compute_newton_range b coeffs max_itr degree xresolution start_itr end_itr
            startx starty deltax deltay total' verbose) r c = iterations b r c)"
  unfolding compute_newton_range_image
  by (simp add: newton_image_def pixel_root_def)

lemma newton_root_linear_0:
  "newton_root (array [0, 1]) (Complex 0 0) 1 10 (1 / 1000000) = (Finite 0, 0, [])"
proof -
  have z: "Complex 0 0 = 0" by (simp add: complex_eq_iff)
  show ?thesis
    unfolding z by (simp add: newton_root_def newton_loop.simps pd_linear)
qed

lemma newton_root_linear_5:
  "newton_root (array [0, 1]) (Complex 5 0) 1 10 (1 / 1000000) = (Finite 0, 1, [])"
proof -
  have z: "Complex 5 0 = 5" by (simp add: complex_eq_iff)
  show ?thesis
    unfolding z by (simp add: newton_root_def newton_loop.simps pd_linear)
qed

theorem compute_newton_range_writes_witness:
  "re (compute_newton_range blank_buffers (array [0, 1]) 10 1 2 0 1 0 0 5 1 2 False) 0 1
     = Value 0
   \<and> im (compute_newton_range blank_buffers (array [0, 1]) 10 1 2 0 1 0 0 5 1 2 False) 0 1
     = Value 0
   \<and> iterations (compute_newton_range blank_buffers (array [0, 1]) 10 1 2 0 1 0 0 5 1 2 False) 0 1
     = 1
   \<and> re (compute_newton_range blank_buffers (array [0, 1]) 10 1 2 0 1 0 0 5 1 2 False) 1 0
     = Value 7
   \<and> iterations (compute_newton_range blank_buffers (array [0, 1]) 10 1 2 0 1 0 0 5 1 2 False) 1 0
     = - 1"
  using compute_newton_range_writes [of 0 0 1 1 2 blank_buffers "array [0, 1]" 10 1 0 0 5 1 2 False]
    compute_newton_range_writes [of 0 1 1 0 2 blank_buffers "array [0, 1]" 10 1 0 0 5 1 2 False]
  by (simp add: newton_root_linear_5 blank_buffers_def const_grid_def)

section \<open>Properties of \<open>sample_newton\<close>\<close>

lemma spawn_loop_eq:
  "itr \<le> length increments - 1 \<Longrightarrow>
   spawn_loop increments itr threads =
     threads @ map (\<lambda>i. (increments ! i, increments ! (i + 1))) [itr..<length increments - 1]"
proof (induction increments itr threads rule: spawn_loop.induct)
  case (1 increments itr threads)
  show ?case
  proof (cases "itr < length increments - 1")
    case True
    have "spawn_loop increments itr threads =
        spawn_loop increments (itr + 1) (threads @ [(increments ! itr, increments ! (itr + 1))])"
      using True by (subst spawn_loop.simps) simp
    also have "\<dots> = (threads @ [(increments ! itr, increments ! (itr + 1))])
        @ map (\<lambda>i. (increments ! i, increments ! (i + 1))) [itr + 1..<length increments - 1]"
      using True by (intro "1.IH") simp_all
    finally show ?thesis using True by (simp add: upt_conv_Cons)
  next
    case False
    then show ?thesis using "1.prems" by (subst spawn_loop.simps) simp
  qed
qed

lemma Union_nth: "(\<Union>ys\<in>set xss. set ys) = (\<Union>j<length xss. set (xss ! j))"
proof -
  have "set xss = (\<lambda>j. xss ! j) ` {..<length xss}"
    by (auto simp: set_conv_nth)
  then show ?thesis by (metis image_image)
qed

lemma Union_list_update:
  assumes "i < length xss" and "xss ! i = x # xs"
  shows "(\<Union>ys\<in>set xss. set ys) = insert x (\<Union>ys\<in>set (xss[i := xs]). set ys)"
proof -
  have "(\<Union>j<length xss. set (xss ! j)) = insert x (\<Union>j<length xss. set ((xss[i := xs]) ! j))"
  proof (intro set_eqI iffI)
    fix y assume "y \<in> (\<Union>j<length xss. set (xss ! j))"
    then obtain j where j: "j < length xss" "y \<in> set (xss ! j)" by auto
    show "y \<in> insert x (\<Union>j<length xss. set ((xss[i := xs]) ! j))"
    proof (cases "j = i")
      case True
      then have "y = x \<or> y \<in> set ((xss[i := xs]) ! i)" using j assms by auto
      then show ?thesis using assms(1) by blast
    next
      case False
      then have "y \<in> set ((xss[i := xs]) ! j)" using j by simp
      then show ?thesis using j(1) by auto
    qed
  next
    fix y assume "y \<in> insert x (\<Union>j<length xss. set ((xss[i := xs]) ! j))"
    then consider "y = x" | j where "j < length xss" "y \<in> set ((xss[i := xs]) ! j)" by auto
    then show "y \<in> (\<Union>j<length xss. set (xss ! j))"
    proof cases
      case 1
      then have "y \<in> set (xss ! i)" using assms(2) by simp
      then show ?thesis using assms(1) by auto
    next
      case 2
      then have "y \<in> set (xss ! j)"
        using assms by (cases "j = i") auto
      then show ?thesis using 2(1) by auto
    qed
  qed
  then show ?thesis by (simp add: Union_nth)
qed

lemma interleaving_set:
  "interleaving xss s \<Longrightarrow> set s = (\<Union>ys\<in>set xss. set ys)"
proof (induction rule: interleaving.induct)
  case (finished xss)
  then show ?case by auto
next
  case (step i xss x xs s)
  show ?case
    using Union_list_update [OF step.hyps(1,2)] step.IH by simp
qed

lemma run_pixels_image:
  "run_pixels coeffs max_itr degree startx starty deltax deltay s b
   = newton_image coeffs max_itr degree startx starty deltax deltay (set s) b"
proof (induction s arbitrary: b)
  case Nil
  show ?case by (simp add: run_pixels_def)
next
  case (Cons p s)
  obtain itr jtr where p: "p = (itr, jtr)" by (cases p)
  have "run_pixels coeffs max_itr degree startx starty deltax deltay (p # s) b
      = run_pixels coeffs max_itr degree startx starty deltax deltay s
          (newton_image coeffs max_itr degree startx starty deltax deltay {(itr, jtr)} b)"
    by (simp add: run_pixels_def p newton_pixel_image)
  also have "\<dots> = newton_image coeffs max_itr degree startx starty deltax deltay (set s)
          (newton_image coeffs max_itr degree startx starty deltax deltay {(itr, jtr)} b)"
    by (rule Cons.IH)
  also have "\<dots> = newton_image coeffs max_itr degree startx starty deltax deltay (set (p # s)) b"
    by (simp add: newton_image_union p Un_commute)
  finally show ?case .
qed

lemma set_worker_pixels:
  "set (worker_pixels xresolution (start_itr, end_itr))
   = {(r, c). start_itr \<le> r \<and> r < end_itr \<and> 0 \<le> c \<and> c < xresolution}"
  by (auto simp: worker_pixels_def)

lemma compute_newton_range_run_pixels:
  "compute_newton_range b coeffs max_itr degree xresolution start_itr end_itr startx starty
     deltax deltay total' verbose
   = run_pixels coeffs max_itr degree startx starty deltax deltay
       (worker_pixels xresolution (start_itr, end_itr)) b"
  by (simp add: compute_newton_range_image run_pixels_image set_worker_pixels)

lemma join_threads_image:
  "join_threads coeffs max_itr degree xresolution startx starty deltax deltay total' verbose
     threads b
   = newton_image coeffs max_itr degree startx starty deltax deltay
       (\<Union>t\<in>set threads. {(r, c). fst t \<le> r \<and> r < snd t \<and> 0 \<le> c \<and> c < xresolution}) b"
proof (induction threads arbitrary: b)
  case Nil
  show ?case by simp
next
  case (Cons t threads)
  obtain start_itr end_itr where t: "t = (start_itr, end_itr)" by (cases t)
  show ?case
    unfolding t join_threads.simps Cons.IH compute_newton_range_image newton_image_union
    by (simp add: Un_commute)
qed

lemma threads_cover:
  assumes "1 \<le> n" and "0 \<le> y" and "iteration_limits n y = Some increments"
  shows "(\<Union>t\<in>set (spawn_loop increments 0 []).
            {(r, c). fst t \<le> r \<and> r < snd t \<and> 0 \<le> c \<and> c < xresolution})
         = {(r, c). 0 \<le> r \<and> r < y \<and> 0 \<le> c \<and> c < xresolution}"
proof -
  have inc: "increments = map (\<lambda>i. (y div n) * int i) [0..<nat n] @ [y]"
    using assms iteration_limits_eq [of n y] by simp
  have len: "length increments - 1 = nat n" using inc by simp
  have thr: "spawn_loop increments 0 [] =
      map (\<lambda>i. (increments ! i, increments ! (i + 1))) [0..<nat n]"
    using spawn_loop_eq [of 0 increments "[]"] len by simp
  have cov: "(\<Union>i<nat n. {increments ! i..<increments ! (i + 1)}) = {0..<y}"
    unfolding inc using assms(1,2) by (rule limits_cover)
  have "(\<Union>t\<in>set (spawn_loop increments 0 []).
            {(r, c). fst t \<le> r \<and> r < snd t \<and> 0 \<le> c \<and> c < xresolution})
      = {(r, c). r \<in> (\<Union>i<nat n. {increments ! i..<increments ! (i + 1)})
            \<and> 0 \<le> c \<and> c < xresolution}"
    unfolding thr by auto
  also have "\<dots> = {(r, c). 0 \<le> r \<and> r < y \<and> 0 \<le> c \<and> c < xresolution}"
    unfolding cov by auto
  finally show ?thesis .
qed

lemma sample_newton_eq:
  assumes "1 \<le> num_threads" and "0 \<le> yresolution"
  shows "sample_newton b coeffs max_itr num_threads degree xresolution yresolution startx endx
      starty endy verbose
    = Some (newton_image coeffs max_itr degree startx starty
              ((endx - startx) / real_of_int xresolution)
              ((endy - starty) / real_of_int yresolution)
              {(r, c). 0 \<le> r \<and> r < yresolution \<and> 0 \<le> c \<and> c < xresolution} b,
            INT_MAX)"
proof -
  obtain increments where inc: "iteration_limits num_threads yresolution = Some increments"
    using assms iteration_limits_eq [of num_threads yresolution] by simp
  show ?thesis
    unfolding sample_newton_def Let_def inc option.case join_threads_image
      threads_cover [OF assms inc] ..
qed

lemma schedule_image:
  assumes "1 \<le> num_threads" and "0 \<le> yresolution"
    and "is_schedule num_threads xresolution yresolution s"
  shows "run_pixels coeffs max_itr degree startx starty deltax deltay s b
    = newton_image coeffs max_itr degree startx starty deltax deltay
        {(r, c). 0 \<le> r \<and> r < yresolution \<and> 0 \<le> c \<and> c < xresolution} b"
proof -
  obtain increments where inc: "iteration_limits num_threads yresolution = Some increments"
    using assms iteration_limits_eq [of num_threads yresolution] by simp
  have "interleaving (map (worker_pixels xresolution) (spawn_loop increments 0 [])) s"
    using assms(3) unfolding is_schedule_def inc by simp
  then have "set s = (\<Union>ys\<in>set (map (worker_pixels xresolution) (spawn_loop increments 0 [])).
      set ys)"
    by (rule interleaving_set)
  also have "\<dots> = (\<Union>t\<in>set (spawn_loop increments 0 []).
      {(r, c). fst t \<le> r \<and> r < snd t \<and> 0 \<le> c \<and> c < xresolution})"
    by (auto simp: set_worker_pixels)
  also have "\<dots> = {(r, c). 0 \<le> r \<and> r < yresolution \<and> 0 \<le> c \<and> c < xresolution}"
    using assms(1,2) inc by (rule threads_cover)
  finally show ?thesis by (simp add: run_pixels_image)
qed

lemma iteration_limits_2_1: "iteration_limits 2 1 = Some [0, 0, 1]"
  using iteration_limits_eq [of 2 1] by (simp add: eval_nat_numeral upt_rec)

text \<open>
  Claim C6, as stated, fails: with two threads and one row the intervals are \<open>[0, 0)\<close> and
  \<open>[0, 1)\<close>, and a thread is created for the empty interval \<open>[0, 0)\<close> as well.
\<close>

theorem sample_newton_degenerate_worker_counterexample:
  "iteration_limits 2 1 = Some [0, 0, 1]
   \<and> spawn_loop [0, 0, 1] 0 [] = [(0, 0), (0, 1)]"
  using spawn_loop_eq [of 0 "[0, 0, 1]" "[]"]
  by (simp add: iteration_limits_2_1 eval_nat_numeral upt_rec)

text \<open>
  Claim C6, amended. \<open>sample_newton\<close> creates exactly one worker for each row interval
  that the partitioner produces, \<open>num_threads\<close> workers in all, empty intervals
  (\<open>start = end\<close>) included; a worker whose interval is empty writes nothing and is no
  error.
\<close>

theorem sample_newton_one_worker_per_interval:
  assumes "iteration_limits num_threads yresolution = Some increments"
  shows "spawn_loop increments 0 []
      = map (\<lambda>i. (increments ! i, increments ! (i + 1))) [0..<nat num_threads]
    \<and> length (spawn_loop increments 0 []) = nat num_threads
    \<and> (\<forall>start_itr end_itr. start_itr = end_itr \<longrightarrow>
          compute_newton_range b coeffs max_itr degree xresolution start_itr end_itr startx
            starty deltax deltay total' verbose = b)"
proof -
  have len: "length increments - 1 = nat num_threads"
    using iteration_limits_length [OF assms] by simp
  have thr: "spawn_loop increments 0 []
      = map (\<lambda>i. (increments ! i, increments ! (i + 1))) [0..<nat num_threads]"
    using spawn_loop_eq [of 0 increments "[]"] len by simp
  have "compute_newton_range b coeffs max_itr degree xresolution start_itr start_itr startx
            starty deltax deltay total' verbose = b" for start_itr
    unfolding compute_newton_range_def by (subst newton_rows.simps) simp
  then show ?thesis using thr by simp
qed

theorem sample_newton_one_worker_per_interval_witness:
  "spawn_loop [0, 0, 1] 0 [] = [(0, 0), (0, 1)]
   \<and> compute_newton_range blank_buffers (array [0, 1]) 10 1 2 0 0 0 0 5 1 2 False
       = blank_buffers"
  using sample_newton_one_worker_per_interval [OF iteration_limits_2_1,
      of blank_buffers "array [0, 1]" 10 1 2 0 0 5 1 2 False]
  by (simp add: eval_nat_numeral upt_rec)

text \<open>
  Claim C7. Whatever the inputs and whatever happened during sampling, a call of
  \<open>sample_newton\<close> stores the largest \<open>int\<close> through \<open>limit\<close>. The calls without a result
  are exactly those whose integer division is undefined in C++ (\<open>num_threads = 0\<close>, or
  \<open>INT_MIN / -1\<close>).
\<close>

theorem sample_newton_limit:
  "(sample_newton b coeffs max_itr num_threads degree xresolution yresolution startx endx
       starty endy verbose = None
     \<longleftrightarrow> num_threads = 0 \<or> (yresolution = INT_MIN \<and> num_threads = - 1))
   \<and> (\<forall>b' limit. sample_newton b coeffs max_itr num_threads degree xresolution yresolution
         startx endx starty endy verbose = Some (b', limit) \<longrightarrow> limit = INT_MAX)"
  unfolding sample_newton_def iteration_limits_def int_div_def Let_def
  by (auto split: option.splits)

theorem sample_newton_limit_witness:
  "\<exists>b'. sample_newton blank_buffers (array [0, 1]) 10 2 1 2 2 0 1 0 1 True = Some (b', INT_MAX)"
proof -
  have "sample_newton blank_buffers (array [0, 1]) 10 2 1 2 2 0 1 0 1 True \<noteq> None"
    using sample_newton_limit [of blank_buffers "array [0, 1]" 10 2 1 2 2 0 1 0 1 True]
    by simp
  then obtain b' limit where
    s: "sample_newton blank_buffers (array [0, 1]) 10 2 1 2 2 0 1 0 1 True = Some (b', limit)"
    by auto
  then have "limit = INT_MAX"
    using sample_newton_limit [of blank_buffers "array [0, 1]" 10 2 1 2 2 0 1 0 1 True]
    by blast
  then show ?thesis using s by blast
qed

text \<open>
  Claim C5. The result of the Newton sampling does not depend on the number of threads nor
  on how the threads are scheduled: for the same geometry, coefficients and \<open>max_itr\<close>, two
  calls with thread counts \<open>num_threads, num_threads' \<ge> 1\<close> yield the same buffers, every
  interleaving of the pixel computations of the threads yields these buffers too, and each
  pixel of the grid holds what \<open>newton_root\<close> yields at its own plane coordinate.
\<close>

theorem sample_newton_thread_independent:
  assumes "1 \<le> num_threads" and "1 \<le> num_threads'" and "1 \<le> yresolution"
  shows "\<exists>b'.
      sample_newton b coeffs max_itr num_threads degree xresolution yresolution startx endx
        starty endy verbose = Some (b', INT_MAX)
    \<and> sample_newton b coeffs max_itr num_threads' degree xresolution yresolution startx endx
        starty endy verbose' = Some (b', INT_MAX)
    \<and> (\<forall>s. is_schedule num_threads xresolution yresolution s
            \<or> is_schedule num_threads' xresolution yresolution s \<longrightarrow>
          run_pixels coeffs max_itr degree startx starty
            ((endx - startx) / real_of_int xresolution)
            ((endy - starty) / real_of_int yresolution) s b = b')
    \<and> (\<forall>r c. 0 \<le> r \<and> r < yresolution \<and> 0 \<le> c \<and> c < xresolution \<longrightarrow>
          re b' r c = real_part (fst (pixel_root coeffs max_itr degree startx starty
            ((endx - startx) / real_of_int xresolution)
            ((endy - starty) / real_of_int yresolution) r c))
        \<and> im b' r c = imag_part (fst (pixel_root coeffs max_itr degree startx starty
            ((endx - startx) / real_of_int xresolution)
            ((endy - starty) / real_of_int yresolution) r c))
        \<and> iterations b' r c = fst (snd (pixel_root coeffs max_itr degree startx starty
            ((endx - startx) / real_of_int xresolution)
            ((endy - starty) / real_of_int yresolution) r c)))"
proof -
  let ?dx = "(endx - startx) / real_of_int xresolution"
  let ?dy = "(endy - starty) / real_of_int yresolution"
  let ?b' = "newton_image coeffs max_itr degree startx starty ?dx ?dy
      {(r, c). 0 \<le> r \<and> r < yresolution \<and> 0 \<le> c \<and> c < xresolution} b"
  have y: "0 \<le> yresolution" using assms(3) by simp
  have 1: "sample_newton b coeffs max_itr num_threads degree xresolution yresolution startx endx
        starty endy verbose = Some (?b', INT_MAX)"
    using assms(1) y by (rule sample_newton_eq)
  have 2: "sample_newton b coeffs max_itr num_threads' degree xresolution yresolution startx endx
        starty endy verbose' = Some (?b', INT_MAX)"
    using assms(2) y by (rule sample_newton_eq)
  have 3: "run_pixels coeffs max_itr degree startx starty ?dx ?dy s b = ?b'"
    if "is_schedule num_threads xresolution yresolution s
        \<or> is_schedule num_threads' xresolution yresolution s" for s
    using that schedule_image [OF assms(1) y] schedule_image [OF assms(2) y] by blast
  have 4: "re ?b' r c = real_part (fst (pixel_root coeffs max_itr degree startx starty ?dx ?dy r c))
        \<and> im ?b' r c = imag_part (fst (pixel_root coeffs max_itr degree startx starty ?dx ?dy r c))
        \<and> iterations ?b' r c = fst (snd (pixel_root coeffs max_itr degree startx starty ?dx ?dy r c))"
    if "0 \<le> r \<and> r < yresolution \<and> 0 \<le> c \<and> c < xresolution" for r c
    using that by (simp add: newton_image_def)
  show ?thesis
    using 1 2 3 4 by blast
qed

lemma iteration_limits_2_2: "iteration_limits 2 2 = Some [0, 1, 2]"
  using iteration_limits_eq [of 2 2] by (simp add: eval_nat_numeral upt_rec)

lemma spawn_loop_2_2: "spawn_loop [0, 1, 2] 0 [] = [(0, 1), (1, 2)]"
  using spawn_loop_eq [of 0 "[0, 1, 2]" "[]"] by (simp add: eval_nat_numeral upt_rec)

lemma worker_pixels_rows:
  "worker_pixels 1 (0, 1) = [(0, 0)]" "worker_pixels 1 (1, 2) = [(1, 0)]"
  by (simp_all add: worker_pixels_def upto.simps)

lemma is_schedule_reversed: "is_schedule 2 1 2 [(1, 0), (0, 0)]"
proof -
  have "interleaving [[], []] ([] :: (int \<times> int) list)"
    by (rule interleaving.finished) simp
  then have "interleaving [[(0, 0)], []] [(0, 0) :: int \<times> int]"
    using interleaving.step [of 0 "[[(0, 0)], []]" "(0, 0) :: int \<times> int" "[]" "[]"] by simp
  then have "interleaving [[(0, 0)], [(1, 0)]] [(1, 0), (0, 0) :: int \<times> int]"
    using interleaving.step [of 1 "[[(0, 0)], [(1, 0)]]" "(1, 0) :: int \<times> int" "[]" "[(0, 0)]"]
    by simp
  then show ?thesis
    by (simp add: is_schedule_def iteration_limits_2_2 spawn_loop_2_2 worker_pixels_rows)
qed

theorem sample_newton_thread_independent_witness:
  "is_schedule 2 1 2 [(1, 0), (0, 0)]
   \<and> sample_newton blank_buffers (array [0, 1]) 10 1 1 1 2 0 5 0 2 False
     = Some (run_pixels (array [0, 1]) 10 1 0 0 ((5 - 0) / real_of_int 1)
               ((2 - 0) / real_of_int 2) [(1, 0), (0, 0)] blank_buffers, INT_MAX)"
proof -
  obtain b' where
    1: "sample_newton blank_buffers (array [0, 1]) 10 1 1 1 2 0 5 0 2 False = Some (b', INT_MAX)"
    and 2: "\<forall>s. is_schedule 1 1 2 s \<or> is_schedule 2 1 2 s \<longrightarrow>
      run_pixels (array [0, 1]) 10 1 0 0 ((5 - 0) / real_of_int 1) ((2 - 0) / real_of_int 2) s
        blank_buffers = b'"
    using sample_newton_thread_independent
      [of 1 2 2 blank_buffers "array [0, 1]" 10 1 1 0 5 0 2 False False]
    by auto
  show ?thesis
    using 1 2 is_schedule_reversed by blast
qed


section \<open>Properties of the Mandelbrot iterator\<close>

lemma orbit_Suc: "orbit c x (Suc k) = orbit c (x * x + c) k"
  unfolding orbit_def funpow_Suc_right by simp

lemma iterate_loop_bounds:
  "k \<le> max_itr \<Longrightarrow> k \<le> iterate_loop c max_itr k x \<and> iterate_loop c max_itr k x \<le> max_itr"
proof (induction c max_itr k x rule: iterate_loop.induct)
  case (1 c max_itr k x)
  show ?case
  proof (cases "k < max_itr \<and> \<not> cmod x > 2")
    case True
    then have "k + 1 \<le> iterate_loop c max_itr (k + 1) (x * x + c)
        \<and> iterate_loop c max_itr (k + 1) (x * x + c) \<le> max_itr"
      by (intro "1.IH") simp_all
    then show ?thesis using True by (subst (1 2) iterate_loop.simps) simp
  next
    case False
    then show ?thesis using "1.prems" by (subst (1 2) iterate_loop.simps) auto
  qed
qed

lemma iterate_loop_escape:
  assumes "k + int n < max_itr" and "cmod (orbit c x n) > 2"
    and "\<And>j. j < n \<Longrightarrow> cmod (orbit c x j) \<le> 2"
  shows "iterate_loop c max_itr k x = k + int n"
  using assms
proof (induction n arbitrary: k x)
  case 0
  then show ?case by (subst iterate_loop.simps) (simp add: orbit_def)
next
  case (Suc n)
  have x: "\<not> cmod x > 2" using Suc.prems(3) [of 0] by (simp add: orbit_def)
  have "iterate_loop c max_itr (k + 1) (x * x + c) = k + 1 + int n"
  proof (rule Suc.IH)
    show "k + 1 + int n < max_itr" using Suc.prems(1) by simp
    show "cmod (orbit c (x * x + c) n) > 2" using Suc.prems(2) by (simp add: orbit_Suc)
    show "cmod (orbit c (x * x + c) j) \<le> 2" if "j < n" for j
      using Suc.prems(3) [of "Suc j"] that by (simp add: orbit_Suc)
  qed
  then show ?case using x Suc.prems(1) by (subst iterate_loop.simps) simp
qed

lemma iterate_loop_bounded:
  assumes "\<And>j. k + int j < max_itr \<Longrightarrow> cmod (orbit c x j) \<le> 2"
  shows "iterate_loop c max_itr k x = max_itr"
  using assms
proof (induction "nat (max_itr - k)" arbitrary: k x)
  case 0
  then show ?case by (subst iterate_loop.simps) simp
next
  case (Suc n)
  then have lt: "k < max_itr" by simp
  have x: "\<not> cmod x > 2" using Suc.prems [of 0] lt by (simp add: orbit_def)
  have "iterate_loop c max_itr (k + 1) (x * x + c) = max_itr"
  proof (rule Suc.hyps(1))
    show "n = nat (max_itr - (k + 1))" using Suc.hyps(2) by simp
    show "cmod (orbit c (x * x + c) j) \<le> 2" if "k + 1 + int j < max_itr" for j
      using Suc.prems [of "Suc j"] that by (simp add: orbit_Suc)
  qed
  then show ?case using x lt by (subst iterate_loop.simps) simp
qed

lemma orbit_zero: "orbit 0 0 k = 0"
  by (induction k) (simp_all add: orbit_def)

lemma cmod_2_2: "cmod (Complex 2 2) > 2"
proof -
  have "2 < sqrt 8" by (rule real_less_rsqrt) simp
  then show ?thesis by (simp add: cmod_def)
qed

lemma iterate_zero: "iterate 0 0 max_itr = max_itr"
  unfolding iterate_def by (rule iterate_loop_bounded) (simp add: orbit_zero)

lemma iterate_2_2: "0 \<le> max_itr \<Longrightarrow> iterate 0 (Complex 2 2) max_itr = min 1 max_itr"
proof -
  assume m: "0 \<le> max_itr"
  show ?thesis
  proof (cases "1 < max_itr")
    case True
    have "iterate_loop (Complex 2 2) max_itr 0 0 = 0 + int 1"
      using True cmod_2_2 by (intro iterate_loop_escape) (simp_all add: orbit_def)
    then show ?thesis using True by (simp add: iterate_def)
  next
    case False
    then have "max_itr = 0 \<or> max_itr = 1" using m by auto
    then show ?thesis
      unfolding iterate_def
      by (subst iterate_loop.simps, subst iterate_loop.simps) auto
  qed
qed

text \<open>
  Claim C8. For every complex \<open>c\<close> and every \<open>max_itr \<ge> 0\<close>, the Mandelbrot iterator
  started at \<open>x = 0\<close> returns the count \<open>k\<close> of the first point of the orbit of
  \<open>x \<leftarrow> x\<^sup>2 + c\<close> with \<open>|x| > 2\<close>, or \<open>max_itr\<close> if there is no escape within the bound. The
  count lies in \<open>[0, max_itr]\<close>; \<open>c = 0\<close> gives exactly \<open>max_itr\<close>, and \<open>c = 2 + 2i\<close> gives a
  count of at most \<open>1\<close>.
\<close>

theorem iterate_escape_count:
  assumes "0 \<le> max_itr"
  shows "0 \<le> iterate 0 c max_itr \<and> iterate 0 c max_itr \<le> max_itr
    \<and> (\<forall>k. int k < max_itr \<and> cmod (orbit c 0 k) > 2 \<and> (\<forall>j<k. cmod (orbit c 0 j) \<le> 2)
          \<longrightarrow> iterate 0 c max_itr = int k)
    \<and> ((\<forall>k. int k < max_itr \<longrightarrow> cmod (orbit c 0 k) \<le> 2) \<longrightarrow> iterate 0 c max_itr = max_itr)
    \<and> iterate 0 0 max_itr = max_itr
    \<and> iterate 0 (Complex 2 2) max_itr = min 1 max_itr"
proof -
  have bounds: "0 \<le> iterate 0 c max_itr \<and> iterate 0 c max_itr \<le> max_itr"
    unfolding iterate_def using assms by (rule iterate_loop_bounds)
  have escape: "iterate 0 c max_itr = int k"
    if "int k < max_itr \<and> cmod (orbit c 0 k) > 2 \<and> (\<forall>j<k. cmod (orbit c 0 j) \<le> 2)" for k
    unfolding iterate_def
    using iterate_loop_escape [of 0 k max_itr c 0] that by simp
  have bounded: "iterate 0 c max_itr = max_itr"
    if "\<forall>k. int k < max_itr \<longrightarrow> cmod (orbit c 0 k) \<le> 2"
    unfolding iterate_def
    using that by (intro iterate_loop_bounded) simp
  show ?thesis
  proof (intro conjI allI impI)
    show "0 \<le> iterate 0 c max_itr" and "iterate 0 c max_itr \<le> max_itr"
      using bounds by simp_all
    show "iterate 0 0 max_itr = max_itr" by (rule iterate_zero)
    show "iterate 0 (Complex 2 2) max_itr = min 1 max_itr" using assms by (rule iterate_2_2)
  next
    fix k
    assume "int k < max_itr \<and> cmod (orbit c 0 k) > 2 \<and> (\<forall>j<k. cmod (orbit c 0 j) \<le> 2)"
    then show "iterate 0 c max_itr = int k" by (rule escape)
  next
    assume "\<forall>k. int k < max_itr \<longrightarrow> cmod (orbit c 0 k) \<le> 2"
    then show "iterate 0 c max_itr = max_itr" by (rule bounded)
  qed
qed

lemma orbit_2_2: "orbit (Complex 2 2) 0 0 = 0" "orbit (Complex 2 2) 0 (Suc 0) = Complex 2 2"
  by (simp_all add: orbit_def)

theorem iterate_escape_count_witness:
  "iterate 0 0 50 = 50 \<and> iterate 0 (Complex 2 2) 50 = 1 \<and> iterate 0 (Complex 2 2) 0 = 0"
proof -
  have "int (Suc 0) < 50 \<and> cmod (orbit (Complex 2 2) 0 (Suc 0)) > 2
      \<and> (\<forall>j<Suc 0. cmod (orbit (Complex 2 2) 0 j) \<le> 2)"
    using cmod_2_2 by (simp add: orbit_2_2)
  moreover have "(0::int) \<le> 50" by simp
  ultimately have a: "iterate 0 (Complex 2 2) 50 = int (Suc 0)"
    using iterate_escape_count [of 50 "Complex 2 2"] by blast
  have b: "iterate 0 0 50 = 50"
    using iterate_escape_count [of 50 0] by simp
  have "iterate 0 (Complex 2 2) 0 = min 1 0"
    using iterate_escape_count [of 0 "Complex 2 2"] by simp
  then show ?thesis using a b by simp
qed

section \<open>Properties of \<open>argmin\<close> and of root assignment\<close>

lemma first_minimum_step:
  assumes swo: "strict_weak_order cmp" and inv: "first_minimum xs cmp n s"
  shows "first_minimum xs cmp (Suc n) (if cmp (xs ! n) (xs ! s) then n else s)"
proof (cases "cmp (xs ! n) (xs ! s)")
  case True
  have irr: "\<And>a. \<not> cmp a a" and tr: "\<And>a b c. cmp a b \<Longrightarrow> cmp b c \<Longrightarrow> cmp a c"
    and neg: "\<And>a b c. cmp a b \<Longrightarrow> cmp a c \<or> cmp c b"
    using swo unfolding strict_weak_order_def by (blast, blast, blast)
  have a: "\<not> cmp (xs ! j) (xs ! n)" if "j < Suc n" for j
  proof (cases "j = n")
    case True
    then show ?thesis using irr by simp
  next
    case False
    then have "j < n" using that by simp
    then have "\<not> cmp (xs ! j) (xs ! s)" using inv unfolding first_minimum_def by blast
    then show ?thesis using tr [OF _ True] by blast
  qed
  have b: "cmp (xs ! n) (xs ! j)" if "j < n" for j
  proof -
    have "\<not> cmp (xs ! j) (xs ! s)" using inv that unfolding first_minimum_def by blast
    then show ?thesis using neg [OF True, of "xs ! j"] by blast
  qed
  show ?thesis using True a b unfolding first_minimum_def by simp
next
  case False
  have "\<not> cmp (xs ! j) (xs ! s)" if "j < Suc n" for j
  proof (cases "j = n")
    case True
    then show ?thesis using False by simp
  next
    case False
    then have "j < n" using that by simp
    then show ?thesis using inv unfolding first_minimum_def by blast
  qed
  moreover have "s < Suc n" and "\<forall>j<s. cmp (xs ! s) (xs ! j)"
    using inv unfolding first_minimum_def by simp_all
  ultimately show ?thesis
    using False unfolding first_minimum_def by simp
qed

lemma min_element_loop_first_minimum:
  assumes "strict_weak_order cmp" and "first_minimum xs cmp first smallest"
    and "first \<le> length xs"
  shows "first_minimum xs cmp (length xs) (min_element_loop xs cmp smallest first)"
  using assms
proof (induction xs cmp smallest first rule: min_element_loop.induct)
  case (1 xs cmp smallest first)
  show ?case
  proof (cases "first < length xs")
    case True
    have "first_minimum xs cmp (length xs)
        (min_element_loop xs cmp (if cmp (xs ! first) (xs ! smallest) then first else smallest)
           (first + 1))"
    proof (rule "1.IH" [OF True "1.prems"(1)])
      show "first_minimum xs cmp (first + 1)
          (if cmp (xs ! first) (xs ! smallest) then first else smallest)"
        using first_minimum_step [OF "1.prems"(1,2)] by (simp only: Suc_eq_plus1)
      show "first + 1 \<le> length xs" using True by simp
    qed
    then show ?thesis using True by (subst min_element_loop.simps) simp
  next
    case False
    then have "first = length xs" using "1.prems"(3) by simp
    then show ?thesis using "1.prems"(2) by (subst min_element_loop.simps) simp
  qed
qed

lemma argmin_first_minimum:
  assumes "strict_weak_order cmp" and "xs \<noteq> []"
  shows "first_minimum xs cmp (length xs) (argmin xs cmp)"
proof -
  have "\<not> cmp (xs ! 0) (xs ! 0)"
    using assms(1) unfolding strict_weak_order_def by blast
  then have "first_minimum xs cmp 1 0"
    unfolding first_minimum_def by simp
  moreover have "1 \<le> length xs" using assms(2) by (cases xs) simp_all
  ultimately have "first_minimum xs cmp (length xs) (min_element_loop xs cmp 0 1)"
    using assms(1) by (intro min_element_loop_first_minimum)
  then show ?thesis
    using assms(2) unfolding argmin_def min_element_def by simp
qed

lemma less_strict_weak_order: "strict_weak_order ((<) :: real \<Rightarrow> real \<Rightarrow> bool)"
  unfolding strict_weak_order_def by auto

lemma assign_root_nearest:
  assumes "1 \<le> degree"
  shows "first_minimum (map (\<lambda>k. root_distance a b roots_re roots_im (int k)) [0..<nat degree])
      (<) (nat degree) (nat (assign_root (Value a) (Value b) roots_re roots_im degree))
    \<and> 0 \<le> assign_root (Value a) (Value b) roots_re roots_im degree"
proof -
  let ?ds = "map (\<lambda>k. root_distance a b roots_re roots_im (int k)) [0..<nat degree]"
  have "?ds \<noteq> []" using assms by simp
  then have "first_minimum ?ds (<) (length ?ds) (argmin ?ds (<))"
    using less_strict_weak_order by (rule argmin_first_minimum [rotated])
  then show ?thesis by (simp add: assign_root_def)
qed

text \<open>
  Claim C9. For a comparison that is a strict weak ordering and a non-empty range,
  \<open>argmin\<close> returns the index of the first minimal element: no element compares less than
  it and it compares less than every element before it. Root assignment gives each pixel of
  the grid that holds a converged value the index of the root at minimal Euclidean distance;
  among roots at equal minimal distance it is the lowest index.
\<close>

theorem argmin_first_minimal:
  "(strict_weak_order cmp \<and> xs \<noteq> [] \<longrightarrow>
      argmin xs cmp < length xs
      \<and> (\<forall>j<length xs. \<not> cmp (xs ! j) (xs ! argmin xs cmp))
      \<and> (\<forall>j<argmin xs cmp. cmp (xs ! argmin xs cmp) (xs ! j)))
   \<and> (0 \<le> r \<and> r < yresolution \<and> 0 \<le> c \<and> c < xresolution \<and> 1 \<le> degree
        \<and> re_in r c = Value a \<and> im_in r c = Value b \<longrightarrow>
      0 \<le> assign_roots index re_in im_in roots_re roots_im degree xresolution yresolution r c
      \<and> assign_roots index re_in im_in roots_re roots_im degree xresolution yresolution r c
           < degree
      \<and> (\<forall>k. 0 \<le> k \<and> k < degree \<longrightarrow>
            root_distance a b roots_re roots_im
              (assign_roots index re_in im_in roots_re roots_im degree xresolution yresolution
                 r c)
            \<le> root_distance a b roots_re roots_im k)
      \<and> (\<forall>k. 0 \<le> k
            \<and> k < assign_roots index re_in im_in roots_re roots_im degree xresolution
                    yresolution r c \<longrightarrow>
            root_distance a b roots_re roots_im
              (assign_roots index re_in im_in roots_re roots_im degree xresolution yresolution
                 r c)
            < root_distance a b roots_re roots_im k))"
proof (rule conjI; rule impI)
  assume "strict_weak_order cmp \<and> xs \<noteq> []"
  then have "first_minimum xs cmp (length xs) (argmin xs cmp)"
    by (simp add: argmin_first_minimum)
  then show "argmin xs cmp < length xs
      \<and> (\<forall>j<length xs. \<not> cmp (xs ! j) (xs ! argmin xs cmp))
      \<and> (\<forall>j<argmin xs cmp. cmp (xs ! argmin xs cmp) (xs ! j))"
    unfolding first_minimum_def .
next
  let ?i = "assign_roots index re_in im_in roots_re roots_im degree xresolution yresolution r c"
  let ?ds = "map (\<lambda>k. root_distance a b roots_re roots_im (int k)) [0..<nat degree]"
  assume h: "0 \<le> r \<and> r < yresolution \<and> 0 \<le> c \<and> c < xresolution \<and> 1 \<le> degree
        \<and> re_in r c = Value a \<and> im_in r c = Value b"
  then have i: "?i = assign_root (Value a) (Value b) roots_re roots_im degree"
    by (simp add: assign_roots_def)
  have deg: "1 \<le> degree" using h by simp
  have fm: "first_minimum ?ds (<) (nat degree) (nat ?i)" and i0: "0 \<le> ?i"
    unfolding i using assign_root_nearest [OF deg] by simp_all
  have lt: "nat ?i < nat degree" using fm unfolding first_minimum_def by simp
  then have i1: "?i < degree" using i0 by simp
  have nth: "?ds ! nat k = root_distance a b roots_re roots_im k" if "0 \<le> k" "k < degree" for k
    using that by simp
  have le: "root_distance a b roots_re roots_im ?i \<le> root_distance a b roots_re roots_im k"
    if "0 \<le> k \<and> k < degree" for k
  proof -
    have "nat k < nat degree" using that by simp
    then have "\<not> ?ds ! nat k < ?ds ! nat ?i" using fm unfolding first_minimum_def by blast
    then show ?thesis using nth [of k] nth [of ?i] that i0 i1 by simp
  qed
  have less: "root_distance a b roots_re roots_im ?i < root_distance a b roots_re roots_im k"
    if "0 \<le> k \<and> k < ?i" for k
  proof -
    have "nat k < nat ?i" using that by simp
    then have "?ds ! nat ?i < ?ds ! nat k" using fm unfolding first_minimum_def by blast
    then show ?thesis using nth [of k] nth [of ?i] that i0 i1 by simp
  qed
  show "0 \<le> ?i \<and> ?i < degree
      \<and> (\<forall>k. 0 \<le> k \<and> k < degree \<longrightarrow>
            root_distance a b roots_re roots_im ?i \<le> root_distance a b roots_re roots_im k)
      \<and> (\<forall>k. 0 \<le> k \<and> k < ?i \<longrightarrow>
            root_distance a b roots_re roots_im ?i < root_distance a b roots_re roots_im k)"
    using i0 i1 le less by blast
qed


lemma root_distance_examples:
  "root_distance 1 0 (array [1, - 1]) (array [0, 0]) 0 = 0"
  "root_distance 1 0 (array [1, - 1]) (array [0, 0]) 1 = 2"
  "root_distance 0 0 (array [1, - 1]) (array [0, 0]) 0 = 1"
  "root_distance 0 0 (array [1, - 1]) (array [0, 0]) 1 = 1"
  by (simp_all add: root_distance_def array_def cmod_def)

theorem argmin_first_minimal_witness:
  "argmin [3, 1, 2, 1 :: real] (<) = 1
   \<and> assign_roots (const_grid 5) (const_grid (Value 1)) (const_grid (Value 0))
       (array [1, - 1]) (array [0, 0]) 2 3 3 1 1 = 0
   \<and> assign_roots (const_grid 5) (const_grid (Value 0)) (const_grid (Value 0))
       (array [1, - 1]) (array [0, 0]) 2 3 3 1 1 = 0"
proof (intro conjI)
  let ?xs = "[3, 1, 2, 1 :: real]"
  have "strict_weak_order ((<) :: real \<Rightarrow> real \<Rightarrow> bool) \<and> ?xs \<noteq> []"
    by (simp add: less_strict_weak_order)
  with argmin_first_minimal [of "(<)" ?xs]
  have lt: "argmin ?xs (<) < length ?xs"
    and min: "\<forall>j<length ?xs. \<not> ?xs ! j < ?xs ! argmin ?xs (<)"
    and first: "\<forall>j<argmin ?xs (<). ?xs ! argmin ?xs (<) < ?xs ! j"
    by blast+
  from lt have "argmin ?xs (<) = 0 \<or> argmin ?xs (<) = 1 \<or> argmin ?xs (<) = 2
      \<or> argmin ?xs (<) = 3"
    by (auto simp: less_Suc_eq eval_nat_numeral)
  moreover have "argmin ?xs (<) \<noteq> 0"
  proof
    assume a: "argmin ?xs (<) = 0"
    show False using min [rule_format, of 1] unfolding a by simp
  qed
  moreover have "argmin ?xs (<) \<noteq> 2"
  proof
    assume a: "argmin ?xs (<) = 2"
    show False using min [rule_format, of 1] unfolding a by simp
  qed
  moreover have "argmin ?xs (<) \<noteq> 3"
  proof
    assume a: "argmin ?xs (<) = 3"
    show False using first [rule_format, of 1] unfolding a by simp
  qed
  ultimately show "argmin ?xs (<) = 1" by blast
next
  let ?i = "assign_roots (const_grid 5) (const_grid (Value 1)) (const_grid (Value 0))
       (array [1, - 1]) (array [0, 0]) 2 3 3 1 1"
  have "(0::int) \<le> 1 \<and> (1::int) < 3 \<and> (0::int) \<le> 1 \<and> (1::int) < 3 \<and> (1::int) \<le> 2
      \<and> const_grid (Value 1) (1::int) (1::int) = Value 1
      \<and> const_grid (Value 0) (1::int) (1::int) = Value 0"
    by (simp add: const_grid_def)
  with argmin_first_minimal [of _ _ 1 3 1 3 2 "const_grid (Value 1)" 1 "const_grid (Value 0)" 0
      "const_grid 5" "array [1, - 1]" "array [0, 0]"]
  have "0 \<le> ?i" and "?i < 2"
    and "\<forall>k. 0 \<le> k \<and> k < ?i \<longrightarrow>
        root_distance 1 0 (array [1, - 1]) (array [0, 0]) ?i
        < root_distance 1 0 (array [1, - 1]) (array [0, 0]) k"
    by blast+
  then show "?i = 0"
    using root_distance_examples by (cases "?i = 1") auto
next
  let ?i = "assign_roots (const_grid 5) (const_grid (Value 0)) (const_grid (Value 0))
       (array [1, - 1]) (array [0, 0]) 2 3 3 1 1"
  have "(0::int) \<le> 1 \<and> (1::int) < 3 \<and> (0::int) \<le> 1 \<and> (1::int) < 3 \<and> (1::int) \<le> 2
      \<and> const_grid (Value 0) (1::int) (1::int) = Value 0
      \<and> const_grid (Value 0) (1::int) (1::int) = Value 0"
    by (simp add: const_grid_def)
  with argmin_first_minimal [of _ _ 1 3 1 3 2 "const_grid (Value 0)" 0 "const_grid (Value 0)" 0
      "const_grid 5" "array [1, - 1]" "array [0, 0]"]
  have "0 \<le> ?i" and "?i < 2"
    and "\<forall>k. 0 \<le> k \<and> k < ?i \<longrightarrow>
        root_distance 0 0 (array [1, - 1]) (array [0, 0]) ?i
        < root_distance 0 0 (array [1, - 1]) (array [0, 0]) k"
    by blast+
  then show "?i = 0"
    using root_distance_examples by (cases "?i = 1") auto
qed

end
